theory Spec2Isabelle
  imports Main "HOL-Library.Word"
begin

section \<open>Data model\<close>

text \<open>
  Indices and terms are Go \<^verbatim>\<open>uint64\<close> values: 64-bit words, on which \<open>+\<close> wraps
  around and \<open><\<close>, \<open>\<le>\<close> compare unsigned. Go \<^verbatim>\<open>int\<close> counters (vote counts, quorum
  sizes) never come near their bounds here and are integers.
\<close>

type_synonym u64 = "64 word"

text \<open>
  A run-time panic of the Go program: indexing or slicing a slice out of range. A
  panic is not an \<^verbatim>\<open>error\<close> value; the call that raises it does not return.
\<close>

datatype fault = IndexOutOfRange | SliceBoundsOutOfRange

text \<open>
  Go \<^verbatim>\<open>error\<close> values. \<open>CantGetLog idx\<close> is the error \<^verbatim>\<open>GetLog\<close> builds with
  \<^verbatim>\<open>fmt.Errorf("Can't get log witn index %d", idx)\<close>; \<open>UnexpectedCommand\<close> is
  the one \<^verbatim>\<open>processRPC\<close> answers an unknown payload with; \<open>StoreError\<close> stands for
  the error of a log store other than the in-memory one.
\<close>

datatype error = CantGetLog u64 | UnexpectedCommand | StoreError

text \<open>
  The \<^verbatim>\<open>Log\<close> struct is declared outside the three source files; its fields are
  the ones the code reads and writes (\<^verbatim>\<open>Index\<close>, \<^verbatim>\<open>Term\<close>, \<^verbatim>\<open>majorityQuorum\<close>,
  \<^verbatim>\<open>count\<close>) and the opaque command payload of the data model.
\<close>

record Log =
  log_Index :: u64
  log_Term :: u64
  log_Command :: string
  log_majorityQuorum :: int
  log_count :: int

section \<open>The in-memory log store (\<^verbatim>\<open>raft/inmem_logstore.go\<close>)\<close>

text \<open>
  \<^verbatim>\<open>InmemLogStore\<close> holds one slice of entries. The slice's elements up to its length
  are the list \<open>entries\<close>; what lies between length and capacity is never read by a
  method after it returns, so the store's state is that list. Entries are held by
  pointer in Go and never written through the store; the model holds their values.
\<close>

record InmemLogStore =
  entries :: "Log list"

definition NewInmemLogStore :: InmemLogStore where
  "NewInmemLogStore = \<lparr>entries = []\<rparr>"

text \<open>\<^verbatim>\<open>FirstIndex\<close> reads \<^verbatim>\<open>i.entries[0]\<close> with no test of the length.\<close>

definition FirstIndex :: "InmemLogStore \<Rightarrow> fault + (u64 \<times> error option)" where
  "FirstIndex i =
     (case entries i of
        [] \<Rightarrow> Inl IndexOutOfRange
      | e # _ \<Rightarrow> Inr (log_Index e, None))"

definition LastIndex :: "InmemLogStore \<Rightarrow> fault + (u64 \<times> error option)" where
  "LastIndex i =
     (let l = length (entries i)
      in if l > 0 then Inr (log_Index (entries i ! (l - 1)), None)
         else Inr (0, None))"

text \<open>\<^verbatim>\<open>GetLog\<close>: the first entry, in slice order, whose index is \<open>idx\<close>.\<close>

fun GetLog_scan :: "Log list \<Rightarrow> u64 \<Rightarrow> error + Log" where
  "GetLog_scan [] idx = Inl (CantGetLog idx)"
| "GetLog_scan (entry # rest) idx =
     (if log_Index entry = idx then Inr entry else GetLog_scan rest idx)"

definition GetLog :: "InmemLogStore \<Rightarrow> u64 \<Rightarrow> fault + (error + Log)" where
  "GetLog i idx = Inr (GetLog_scan (entries i) idx)"

definition SetLog :: "InmemLogStore \<Rightarrow> Log \<Rightarrow> fault + (InmemLogStore \<times> error option)" where
  "SetLog i entry = Inr (i\<lparr>entries := entries i @ [entry]\<rparr>, None)"

fun SetLogs_loop :: "InmemLogStore \<Rightarrow> Log list \<Rightarrow> InmemLogStore" where
  "SetLogs_loop i [] = i"
| "SetLogs_loop i (entry # rest) = SetLogs_loop (i\<lparr>entries := entries i @ [entry]\<rparr>) rest"

definition SetLogs :: "InmemLogStore \<Rightarrow> Log list \<Rightarrow> fault + (InmemLogStore \<times> error option)" where
  "SetLogs i es = Inr (SetLogs_loop i es, None)"

text \<open>
  \<^verbatim>\<open>DeleteRange(min, max)\<close>. For every \<open>j\<close> from \<open>min\<close> up to \<open>max\<close> (exclusive) the
  inner \<^verbatim>\<open>range\<close> loop walks the slice as it was when the loop began: Go evaluates the
  range expression once, so the walk visits the positions \<open>0 ..< n\<close> of the backing
  array, \<open>n\<close> the length at that moment, and reads each element when it reaches it.
  On an entry whose index is \<open>j\<close> the body runs
  \<^verbatim>\<open>i.entries = append(i.entries[:j], i.entries[j+1:]...)\<close>, where \<open>j\<close> is used as a
  slice position. With \<open>len\<close> the current length of \<^verbatim>\<open>i.entries\<close>:
  \<^item> the two slice expressions need \<open>j + 1 \<le> len\<close>; otherwise the program panics
    (slice bounds out of range);
  \<^item> the result always fits the capacity, so \<^verbatim>\<open>append\<close> writes in place: the array
    positions \<open>j ..< len - 1\<close> receive the old positions \<open>j + 1 ..< len\<close>, every other
    position keeps its element, and the length becomes \<open>len - 1\<close>.
  The walk goes on over the array so changed. \<open>arr\<close> below is the first \<open>n\<close> array
  positions, \<open>len\<close> the current length of \<^verbatim>\<open>i.entries\<close>.
\<close>

definition DeleteRange_body :: "u64 \<Rightarrow> Log list \<times> nat \<Rightarrow> nat \<Rightarrow> fault + (Log list \<times> nat)" where
  "DeleteRange_body j st k =
     (case st of (arr, len) \<Rightarrow>
        if log_Index (arr ! k) = j then
          if len < unat j + 1 then Inl SliceBoundsOutOfRange
          else Inr (take (unat j) arr @ take (len - (unat j + 1)) (drop (unat j + 1) arr)
                      @ drop (len - 1) arr,
                    len - 1)
        else Inr (arr, len))"

fun DeleteRange_range :: "u64 \<Rightarrow> nat list \<Rightarrow> Log list \<times> nat \<Rightarrow> fault + (Log list \<times> nat)" where
  "DeleteRange_range j [] st = Inr st"
| "DeleteRange_range j (k # ks) st =
     (case DeleteRange_body j st k of
        Inl f \<Rightarrow> Inl f
      | Inr st' \<Rightarrow> DeleteRange_range j ks st')"

definition DeleteRange_pass :: "u64 \<Rightarrow> Log list \<Rightarrow> fault + Log list" where
  "DeleteRange_pass j es =
     (case DeleteRange_range j [0 ..< length es] (es, length es) of
        Inl f \<Rightarrow> Inl f
      | Inr (arr, len) \<Rightarrow> Inr (take len arr))"

function DeleteRange_loop :: "u64 \<Rightarrow> u64 \<Rightarrow> Log list \<Rightarrow> fault + Log list" where
  "DeleteRange_loop j mx es =
     (if j < mx then
        (case DeleteRange_pass j es of
           Inl f \<Rightarrow> Inl f
         | Inr es' \<Rightarrow> DeleteRange_loop (j + 1) mx es')
      else Inr es)"
  by pat_completeness auto
termination
proof (relation "measure (\<lambda>(j, mx, es). unat mx - unat j)")
  show "wf (measure (\<lambda>(j, mx, es). unat mx - unat j))"
    by simp
next
  fix j mx :: u64 and es x2 :: "Log list"
  assume lt: "j < mx"
  have below: "unat j < unat mx"
    using lt by (simp add: word_less_nat_alt)
  have "unat mx < 2 ^ 64"
    using unsigned_less [of mx] by simp
  with below have "unat (j + 1) = unat j + 1"
    by (simp add: unat_word_ariths)
  with below show "((j + 1, mx, x2), (j, mx, es)) \<in> measure (\<lambda>(j, mx, es). unat mx - unat j)"
    by simp
qed

definition DeleteRange :: "InmemLogStore \<Rightarrow> u64 \<Rightarrow> u64 \<Rightarrow> fault + (InmemLogStore \<times> error option)" where
  "DeleteRange i mn mx =
     (case DeleteRange_loop mn mx (entries i) of
        Inl f \<Rightarrow> Inl f
      | Inr es \<Rightarrow> Inr (i\<lparr>entries := es\<rparr>, None))"

text \<open>
  The Go composite literal \<^verbatim>\<open>&Log{Index: i, Term: t}\<close>: the other fields hold their
  zero values.
\<close>

definition Log_lit :: "u64 \<Rightarrow> u64 \<Rightarrow> Log" where
  "Log_lit i t =
     \<lparr>log_Index = i, log_Term = t, log_Command = [], log_majorityQuorum = 0, log_count = 0\<rparr>"

section \<open>The log store interface\<close>

text \<open>
  Modelled from the spec: the \<^verbatim>\<open>LogStore\<close> interface, whose declaration is outside the
  three source files. The server holds its store behind this interface
  (\<^verbatim>\<open>s.logs.GetLog\<close>, \<^verbatim>\<open>s.logs.SetLog\<close>, ...); the contract lists the six methods. An
  implementation is a table of methods over its own state \<open>'ls\<close>: the reading methods
  return a value or an error, the writing methods return the store as they leave it
  and an optional error, and any of them may panic.
\<close>

record 'ls LogStore =
  ls_FirstIndex :: "'ls \<Rightarrow> fault + (u64 \<times> error option)"
  ls_LastIndex :: "'ls \<Rightarrow> fault + (u64 \<times> error option)"
  ls_GetLog :: "'ls \<Rightarrow> u64 \<Rightarrow> fault + (error + Log)"
  ls_SetLog :: "'ls \<Rightarrow> Log \<Rightarrow> fault + ('ls \<times> error option)"
  ls_SetLogs :: "'ls \<Rightarrow> Log list \<Rightarrow> fault + ('ls \<times> error option)"
  ls_DeleteRange :: "'ls \<Rightarrow> u64 \<Rightarrow> u64 \<Rightarrow> fault + ('ls \<times> error option)"

text \<open>The in-memory store as an implementation of the interface (\<^verbatim>\<open>main.go\<close> wires it in).\<close>

definition Inmem :: "InmemLogStore LogStore" where
  "Inmem =
     \<lparr>ls_FirstIndex = FirstIndex, ls_LastIndex = LastIndex, ls_GetLog = GetLog,
      ls_SetLog = SetLog, ls_SetLogs = SetLogs, ls_DeleteRange = DeleteRange\<rparr>"

section \<open>Server state\<close>

text \<open>The four states \<^verbatim>\<open>raft.go\<close> switches on.\<close>

datatype ServerState = Follower | Candidate | Leader | Stopped

text \<open>
  Modelled from the spec: the \<^verbatim>\<open>Server\<close> struct, declared outside the three source
  files (its accessors follow, one by one). The fields are the node identity and term state of the data
  model, the cached replication markers, the peer list, the log store and the leader's
  map of in-flight entries (\<^verbatim>\<open>s.applying\<close>). Channels, timers and the per-follower
  records carry no state that the functions below read.
\<close>

record 'ls Server =
  state :: ServerState
  currentTerm :: u64
  votedFor :: string
  leaderAddress :: string
  localAddress :: string
  peers :: "string list"
  commitIndex :: u64
  lastLogIndex :: u64
  lastLogTerm :: u64
  logs :: 'ls
  applying :: "u64 \<rightharpoonup> Log"

text \<open>Modelled from the spec: the accessor \<^verbatim>\<open>State()\<close> returns the node's state.\<close>

definition State :: "'ls Server \<Rightarrow> ServerState" where
  "State s = state s"

text \<open>Modelled from the spec: the accessor \<^verbatim>\<open>Term()\<close> returns \<open>currentTerm\<close>.\<close>

definition Term :: "'ls Server \<Rightarrow> u64" where
  "Term s = currentTerm s"

text \<open>Modelled from the spec: the accessor \<^verbatim>\<open>LastLogIndex()\<close> returns the cached marker.\<close>

definition LastLogIndex :: "'ls Server \<Rightarrow> u64" where
  "LastLogIndex s = lastLogIndex s"

text \<open>
  Modelled from the spec: the accessor \<^verbatim>\<open>LastLog()\<close> returns the two cached last-log
  markers, index first.
\<close>

definition LastLog :: "'ls Server \<Rightarrow> u64 \<times> u64" where
  "LastLog s = (lastLogIndex s, lastLogTerm s)"

text \<open>Modelled from the spec: the accessor \<^verbatim>\<open>CommitIndex()\<close> returns \<open>commitIndex\<close>.\<close>

definition CommitIndex :: "'ls Server \<Rightarrow> u64" where
  "CommitIndex s = commitIndex s"

text \<open>Modelled from the spec: the accessor \<^verbatim>\<open>LocalAddress()\<close> returns the node's own address.\<close>

definition LocalAddress :: "'ls Server \<Rightarrow> string" where
  "LocalAddress s = localAddress s"

text \<open>
  Modelled from the spec: \<^verbatim>\<open>QuorumSize()\<close>, the quorum size \<open>\<lfloor>(peers + 1) / 2\<rfloor> + 1\<close>,
  the peers not counting the node itself.
\<close>

definition QuorumSize :: "'ls Server \<Rightarrow> int" where
  "QuorumSize s = (int (length (peers s)) + 1) div 2 + 1"

text \<open>Modelled from the spec: \<^verbatim>\<open>setState\<close> stores the state.\<close>

definition setState :: "ServerState \<Rightarrow> 'ls Server \<Rightarrow> 'ls Server" where
  "setState st s = s\<lparr>state := st\<rparr>"

text \<open>
  Modelled from the spec: \<^verbatim>\<open>setTerm\<close> stores the term and clears \<open>votedFor\<close> when the
  term advances (``cleared whenever \<open>currentTerm\<close> advances'').
\<close>

definition setTerm :: "u64 \<Rightarrow> 'ls Server \<Rightarrow> 'ls Server" where
  "setTerm t s = s\<lparr>currentTerm := t, votedFor := (if currentTerm s < t then [] else votedFor s)\<rparr>"

text \<open>Modelled from the spec: \<^verbatim>\<open>setLeader\<close> records the best-known leader.\<close>

definition setLeader :: "string \<Rightarrow> 'ls Server \<Rightarrow> 'ls Server" where
  "setLeader l s = s\<lparr>leaderAddress := l\<rparr>"

text \<open>Modelled from the spec: \<^verbatim>\<open>setLastLog\<close> stores the two cached last-log markers.\<close>

definition setLastLog :: "u64 \<Rightarrow> u64 \<Rightarrow> 'ls Server \<Rightarrow> 'ls Server" where
  "setLastLog i t s = s\<lparr>lastLogIndex := i, lastLogTerm := t\<rparr>"

text \<open>Modelled from the spec: \<^verbatim>\<open>setCommitIndex\<close> stores the commit index.\<close>

definition setCommitIndex :: "u64 \<Rightarrow> 'ls Server \<Rightarrow> 'ls Server" where
  "setCommitIndex i s = s\<lparr>commitIndex := i\<rparr>"

section \<open>RPC messages\<close>

text \<open>
  The request and response structs are declared outside the three source files; their
  fields are the ones \<^verbatim>\<open>raft.go\<close> reads and writes.
\<close>

record AppendEntryRequest =
  ae_Term :: u64
  ae_Leader :: string
  ae_PrevLogIndex :: u64
  ae_PrevLogTerm :: u64
  ae_Entries :: "Log list"
  ae_LeaderCommitIndex :: u64

record AppendEntryResponse =
  aer_Term :: u64
  aer_LastLogIndex :: u64
  aer_Success :: bool

record RequestVoteRequest =
  rv_Term :: u64
  rv_CandidateName :: string
  rv_LastLogIndex :: u64
  rv_LastLogTerm :: u64

record RequestVoteResponse =
  rvr_Term :: u64
  rvr_VoteGranted :: bool

text \<open>
  Modelled from the spec: the constructor \<^verbatim>\<open>newRequestVoteRequest(term, candidate,
  lastLogIndex, lastLogTerm)\<close> fills the four fields of the vote request in that order.
\<close>

definition newRequestVoteRequest :: "u64 \<Rightarrow> string \<Rightarrow> u64 \<Rightarrow> u64 \<Rightarrow> RequestVoteRequest" where
  "newRequestVoteRequest t c i lt =
     \<lparr>rv_Term = t, rv_CandidateName = c, rv_LastLogIndex = i, rv_LastLogTerm = lt\<rparr>"

text \<open>
  An RPC envelope carries a command and a response sink. \<open>Command\<close> is the dynamic
  type of \<^verbatim>\<open>rpc.Command\<close>; a \<open>Reply\<close> is the pair handed to \<^verbatim>\<open>rpc.Response\<close>.
\<close>

datatype Command =
  AppendEntryCmd AppendEntryRequest
| RequestVoteCmd RequestVoteRequest
| OtherCmd

datatype Payload =
  NilPayload
| AppendEntryPayload AppendEntryResponse
| RequestVotePayload RequestVoteResponse

type_synonym Reply = "Payload \<times> error option"

section \<open>RPC handling (\<^verbatim>\<open>raft/raft.go\<close>)\<close>

text \<open>
  \<^verbatim>\<open>processRequestVoteResponse\<close>: the returned flag says whether the response counts
  as a granted vote.
\<close>

definition processRequestVoteResponse ::
    "'ls Server \<Rightarrow> RequestVoteResponse \<Rightarrow> bool \<times> 'ls Server" where
  "processRequestVoteResponse s resp =
     (if rvr_VoteGranted resp \<and> rvr_Term resp = currentTerm s then (True, s)
      else if rvr_Term resp > currentTerm s
        then (False, setState Follower (setTerm (rvr_Term resp) s))
        else (False, s))"

text \<open>
  \<^verbatim>\<open>processRequestVote\<close>. The deferred call hands \<open>resp\<close> and the outer \<open>err\<close>, which
  is never assigned, to \<^verbatim>\<open>rpc.Response\<close>: the result is the server, the response and
  that error. \<open>processRequestVote_log\<close> is the function's tail from the up-to-date
  check on.
\<close>

definition processRequestVote_log ::
    "'ls Server \<Rightarrow> RequestVoteResponse \<Rightarrow> RequestVoteRequest
      \<Rightarrow> 'ls Server \<times> RequestVoteResponse \<times> error option" where
  "processRequestVote_log s resp req =
     (case LastLog s of (lastIndex, lastTerm) \<Rightarrow>
        if lastIndex > rv_LastLogIndex req \<or> lastTerm > rv_LastLogTerm req then (s, resp, None)
        else
          (let s' = s\<lparr>votedFor := rv_CandidateName req\<rparr>
           in (s', resp\<lparr>rvr_VoteGranted := True, rvr_Term := Term s'\<rparr>, None)))"

definition processRequestVote ::
    "'ls Server \<Rightarrow> RequestVoteRequest \<Rightarrow> 'ls Server \<times> RequestVoteResponse \<times> error option" where
  "processRequestVote s req =
     (let resp = \<lparr>rvr_Term = Term s, rvr_VoteGranted = False\<rparr>
      in if rv_Term req < Term s then (s, resp, None)
         else if rv_Term req > Term s then
           (let s' = setTerm (rv_Term req) s
            in processRequestVote_log s' (resp\<lparr>rvr_Term := Term s'\<rparr>) req)
         else if votedFor s \<noteq> [] \<and> votedFor s \<noteq> rv_CandidateName req then (s, resp, None)
         else processRequestVote_log s resp req)"

text \<open>
  \<^verbatim>\<open>processAppendEntries\<close>, in four parts. The deferred call hands \<open>resp\<close> and the
  outer \<open>err\<close> to \<^verbatim>\<open>rpc.Response\<close>; every error of the store is bound to a variable of
  an inner scope, so the outer \<open>err\<close> stays \<^verbatim>\<open>nil\<close>. A panic of the store leaves the
  function without a result (\<open>Inl\<close>).

  \<open>processAppendEntries_commit\<close>: the commit index update and the successful return.
\<close>

definition processAppendEntries_commit ::
    "'ls Server \<Rightarrow> AppendEntryResponse \<Rightarrow> AppendEntryRequest
      \<Rightarrow> 'ls Server \<times> AppendEntryResponse \<times> error option" where
  "processAppendEntries_commit s resp req =
     (let s' = (if ae_LeaderCommitIndex req > CommitIndex s
                then setCommitIndex (min (ae_LeaderCommitIndex req) (LastLogIndex s)) s
                else s)
      in (s', resp\<lparr>aer_Success := True\<rparr>, None))"

text \<open>
  \<open>processAppendEntries_entries\<close>: the block ``process any new entry'', then the
  commit part. A failing \<^verbatim>\<open>DeleteRange\<close> or \<^verbatim>\<open>SetLogs\<close> returns at once.
\<close>

definition processAppendEntries_entries ::
    "'ls LogStore \<Rightarrow> 'ls Server \<Rightarrow> AppendEntryResponse \<Rightarrow> AppendEntryRequest
      \<Rightarrow> fault + ('ls Server \<times> AppendEntryResponse \<times> error option)" where
  "processAppendEntries_entries L s resp req =
     (let n = length (ae_Entries req)
      in if n > 0 then
           (let first = ae_Entries req ! 0;
                last = ae_Entries req ! (n - 1);
                lastLogIndex' = LastLogIndex s
            in case (if log_Index first \<le> lastLogIndex'
                     then ls_DeleteRange L (logs s) (log_Index first) lastLogIndex'
                     else Inr (logs s, None)) of
                 Inl f \<Rightarrow> Inl f
               | Inr (ls1, Some err) \<Rightarrow> Inr (s\<lparr>logs := ls1\<rparr>, resp, None)
               | Inr (ls1, None) \<Rightarrow>
                   (case ls_SetLogs L ls1 (ae_Entries req) of
                      Inl f \<Rightarrow> Inl f
                    | Inr (ls2, Some err) \<Rightarrow> Inr (s\<lparr>logs := ls2\<rparr>, resp, None)
                    | Inr (ls2, None) \<Rightarrow>
                        (let s' = setLastLog (log_Index last) (log_Term last) (s\<lparr>logs := ls2\<rparr>)
                         in Inr (processAppendEntries_commit s'
                                   (resp\<lparr>aer_LastLogIndex := LastLogIndex s'\<rparr>) req))))
         else Inr (processAppendEntries_commit s resp req))"

text \<open>
  \<open>processAppendEntries_prevLogTerm\<close>: the local term for \<^verbatim>\<open>req.PrevLogIndex\<close>, from
  the cached last-log fields when the index is the cached one, otherwise from the
  store; an error when the store has no such entry.
\<close>

definition processAppendEntries_prevLogTerm ::
    "'ls LogStore \<Rightarrow> 'ls Server \<Rightarrow> AppendEntryRequest \<Rightarrow> fault + (error + u64)" where
  "processAppendEntries_prevLogTerm L s req =
     (case LastLog s of (lastLogIndex', lastLogTerm') \<Rightarrow>
        if ae_PrevLogIndex req = lastLogIndex' then Inr (Inr lastLogTerm')
        else (case ls_GetLog L (logs s) (ae_PrevLogIndex req) of
                Inl f \<Rightarrow> Inl f
              | Inr (Inl err) \<Rightarrow> Inr (Inl err)
              | Inr (Inr prevLog) \<Rightarrow> Inr (Inr (log_Term prevLog))))"

definition processAppendEntries ::
    "'ls LogStore \<Rightarrow> 'ls Server \<Rightarrow> AppendEntryRequest
      \<Rightarrow> fault + ('ls Server \<times> AppendEntryResponse \<times> error option)" where
  "processAppendEntries L s req =
     (let resp = \<lparr>aer_Term = Term s, aer_LastLogIndex = LastLogIndex s, aer_Success = False\<rparr>
      in if ae_Term req < Term s then Inr (s, resp, None)
         else
           (let (s1, resp1) =
                  (if ae_Term req > Term s \<or> State s \<noteq> Follower
                   then (setState Follower (setTerm (ae_Term req) s), resp\<lparr>aer_Term := ae_Term req\<rparr>)
                   else (s, resp));
                s2 = setLeader (ae_Leader req) s1
            in case processAppendEntries_prevLogTerm L s2 req of
                 Inl f \<Rightarrow> Inl f
               | Inr (Inl err) \<Rightarrow> Inr (s2, resp1, None)
               | Inr (Inr prevLogTerm) \<Rightarrow>
                   if ae_PrevLogTerm req \<noteq> prevLogTerm then Inr (s2, resp1, None)
                   else processAppendEntries_entries L s2 resp1 req))"

text \<open>\<^verbatim>\<open>processRPC\<close>: dispatch on the dynamic type of the command.\<close>

definition processRPC :: "'ls LogStore \<Rightarrow> 'ls Server \<Rightarrow> Command \<Rightarrow> fault + ('ls Server \<times> Reply)" where
  "processRPC L s cmd =
     (case cmd of
        AppendEntryCmd req \<Rightarrow>
          (case processAppendEntries L s req of
             Inl f \<Rightarrow> Inl f
           | Inr (s', resp, err) \<Rightarrow> Inr (s', (AppendEntryPayload resp, err)))
      | RequestVoteCmd req \<Rightarrow>
          (case processRequestVote s req of
             (s', resp, err) \<Rightarrow> Inr (s', (RequestVotePayload resp, err)))
      | OtherCmd \<Rightarrow> Inr (s, (NilPayload, Some UnexpectedCommand)))"

section \<open>Proposals (\<^verbatim>\<open>dispatchLog\<close>)\<close>

text \<open>
  \<^verbatim>\<open>dispatchLog\<close> fills the entry's four fields, hands it to \<^verbatim>\<open>SetLog\<close> and returns
  at once when that fails. Otherwise it records the entry in \<^verbatim>\<open>s.applying\<close> and moves
  the cached markers. The notifications to the followers' channels that end the
  function change nothing of the server's state.
\<close>

definition dispatchLog :: "'ls LogStore \<Rightarrow> 'ls Server \<Rightarrow> Log \<Rightarrow> fault + 'ls Server" where
  "dispatchLog L s applyLog =
     (let currentTerm' = Term s;
          lastLogIndex' = LastLogIndex s;
          applyLog' = applyLog\<lparr>log_Term := currentTerm', log_Index := lastLogIndex' + 1,
                               log_majorityQuorum := QuorumSize s, log_count := 0\<rparr>
      in case ls_SetLog L (logs s) applyLog' of
           Inl f \<Rightarrow> Inl f
         | Inr (ls', Some err) \<Rightarrow> Inr (s\<lparr>logs := ls'\<rparr>)
         | Inr (ls', None) \<Rightarrow>
             Inr (setLastLog (lastLogIndex' + 1) currentTerm'
                    (s\<lparr>logs := ls', applying := (applying s)(log_Index applyLog' \<mapsto> applyLog')\<rparr>)))"

section \<open>The candidate loop (\<^verbatim>\<open>runAsCandidate\<close>)\<close>

text \<open>
  The loop's \<^verbatim>\<open>select\<close> waits for one of four events; which one comes is not the
  loop's choice, so the loop is a function of the events it is given, in the order the
  \<^verbatim>\<open>select\<close> statements receive them.
\<close>

datatype Event =
  StopCh
| RespCh RequestVoteResponse
| RpcCh Command
| ElectionTimeoutC

text \<open>
  The loop's local variables and what it has done so far: the vote requests handed to
  \<^verbatim>\<open>sendVoteRequest\<close> (peer and request, in the order of \<^verbatim>\<open>s.peers\<close>) and the replies
  given to inbound RPCs. Each request is built by its own goroutine; the model builds
  it when the goroutine is started.
\<close>

record 'ls CandidateLoop =
  srv :: "'ls Server"
  doVote :: bool
  votesGranted :: int
  sent :: "(string \<times> RequestVoteRequest) list"
  replies :: "Reply list"

text \<open>
  How a run over a list of events ends: the function returned (with the events it did
  not consume), it is blocked in \<^verbatim>\<open>select\<close> with no event left, or an RPC handler
  panicked.
\<close>

datatype 'ls Ended =
  Returned "'ls CandidateLoop" "Event list"
| Blocked "'ls CandidateLoop"
| Panicked fault "'ls CandidateLoop"

text \<open>The \<^verbatim>\<open>if doVote\<close> block: one vote round.\<close>

definition voteRound :: "'ls CandidateLoop \<Rightarrow> 'ls CandidateLoop" where
  "voteRound c =
     (let s1 = (srv c)\<lparr>currentTerm := currentTerm (srv c) + 1\<rparr>;
          s2 = s1\<lparr>votedFor := LocalAddress s1\<rparr>
      in c\<lparr>srv := s2,
            sent := sent c @ map (\<lambda>peer. (peer, newRequestVoteRequest (currentTerm s2) (LocalAddress s2) 1 0))
                               (peers s2),
            votesGranted := 1,
            doVote := False\<rparr>)"

fun runAsCandidate_loop :: "'ls LogStore \<Rightarrow> 'ls CandidateLoop \<Rightarrow> Event list \<Rightarrow> 'ls Ended" where
  "runAsCandidate_loop L c evs =
     (if State (srv c) \<noteq> Candidate then Returned c evs
      else
        (let c1 = (if doVote c then voteRound c else c)
         in if votesGranted c1 = QuorumSize (srv c1)
            then Returned (c1\<lparr>srv := setState Leader (srv c1)\<rparr>) evs
            else
              (case evs of
                 [] \<Rightarrow> Blocked c1
               | StopCh # rest \<Rightarrow> Returned (c1\<lparr>srv := setState Stopped (srv c1)\<rparr>) rest
               | RespCh resp # rest \<Rightarrow>
                   (case processRequestVoteResponse (srv c1) resp of
                      (success, s') \<Rightarrow>
                        runAsCandidate_loop L
                          (c1\<lparr>srv := s',
                              votesGranted := (if success then votesGranted c1 + 1 else votesGranted c1)\<rparr>)
                          rest)
               | RpcCh rpc # rest \<Rightarrow>
                   (case processRPC L (srv c1) rpc of
                      Inl f \<Rightarrow> Panicked f c1
                    | Inr (s', reply) \<Rightarrow>
                        runAsCandidate_loop L (c1\<lparr>srv := s', replies := replies c1 @ [reply]\<rparr>) rest)
               | ElectionTimeoutC # rest \<Rightarrow> runAsCandidate_loop L (c1\<lparr>doVote := True\<rparr>) rest)))"

declare runAsCandidate_loop.simps [simp del]

text \<open>The locals as \<^verbatim>\<open>runAsCandidate\<close> sets them before the loop.\<close>

definition runAsCandidate_entry :: "'ls Server \<Rightarrow> 'ls CandidateLoop" where
  "runAsCandidate_entry s = \<lparr>srv = s, doVote = True, votesGranted = 0, sent = [], replies = []\<rparr>"

definition runAsCandidate :: "'ls LogStore \<Rightarrow> 'ls Server \<Rightarrow> Event list \<Rightarrow> 'ls Ended" where
  "runAsCandidate L s evs = runAsCandidate_loop L (runAsCandidate_entry s) evs"

text \<open>The loop's locals and effects at the end of a run, however it ended.\<close>

fun finalLoop :: "'ls Ended \<Rightarrow> 'ls CandidateLoop" where
  "finalLoop (Returned c evs) = c"
| "finalLoop (Blocked c) = c"
| "finalLoop (Panicked f c) = c"

section \<open>Notions the properties are stated with\<close>

text \<open>
  The term a node holds for an index, as \<^verbatim>\<open>processAppendEntries\<close> looks it up: the
  cached last-log term when the index is the cached last-log index, otherwise the term
  of the entry \<^verbatim>\<open>GetLog\<close> finds in the store; \<open>None\<close> when \<^verbatim>\<open>GetLog\<close> finds no entry.
\<close>

definition storedTermAt :: "InmemLogStore Server \<Rightarrow> u64 \<Rightarrow> u64 option" where
  "storedTermAt s idx =
     (if idx = lastLogIndex s then Some (lastLogTerm s)
      else (case GetLog (logs s) idx of
              Inr (Inr entry) \<Rightarrow> Some (log_Term entry)
            | _ \<Rightarrow> None))"

text \<open>
  A node handling a sequence of vote requests, one \<^verbatim>\<open>processRequestVote\<close> call after
  the other: each request paired with the response it got.
\<close>

fun processRequestVote_seq ::
    "'ls Server \<Rightarrow> RequestVoteRequest list \<Rightarrow> (RequestVoteRequest \<times> RequestVoteResponse) list" where
  "processRequestVote_seq s [] = []"
| "processRequestVote_seq s (req # reqs) =
     (case processRequestVote s req of
        (s', resp, err) \<Rightarrow> (req, resp) # processRequestVote_seq s' reqs)"

text \<open>
  Modelled from the spec: a log store that keeps the contract's rule for \<^verbatim>\<open>SetLog\<close>
  (``failing if an index would violate contiguity''): the in-memory store, except that
  \<^verbatim>\<open>SetLog\<close> refuses an entry whose index is not one past the last index. It is the
  example of a store whose \<^verbatim>\<open>SetLog\<close> can fail.
\<close>

definition Contiguous :: "InmemLogStore LogStore" where
  "Contiguous =
     Inmem\<lparr>ls_SetLog := (\<lambda>i entry.
        case LastIndex i of
          Inl f \<Rightarrow> Inl f
        | Inr (l, _) \<Rightarrow>
            if log_Index entry = l + 1 then SetLog i entry else Inr (i, Some StoreError))\<rparr>"

section \<open>Example nodes and messages\<close>

text \<open>
  A node of a three-node cluster as it starts: Follower, term 0, empty log. The others
  are that node in the states of the spec's scenarios.
\<close>

definition fresh_node :: "InmemLogStore Server" where
  "fresh_node =
     \<lparr>state = Follower, currentTerm = 0, votedFor = [], leaderAddress = [],
      localAddress = ''n1'', peers = [''n2'', ''n3''], commitIndex = 0, lastLogIndex = 0,
      lastLogTerm = 0, logs = NewInmemLogStore, applying = Map.empty\<rparr>"

definition scenario_follower :: "InmemLogStore Server" where
  "scenario_follower =
     fresh_node\<lparr>currentTerm := 3, lastLogIndex := 5, lastLogTerm := 3,
       logs := \<lparr>entries = [Log_lit 1 1, Log_lit 2 1, Log_lit 3 2, Log_lit 4 3, Log_lit 5 3]\<rparr>\<rparr>"

definition scenario_candidate :: "InmemLogStore Server" where
  "scenario_candidate = fresh_node\<lparr>state := Candidate\<rparr>"

definition lone_candidate :: "InmemLogStore Server" where
  "lone_candidate = fresh_node\<lparr>state := Candidate, peers := []\<rparr>"

definition scenario_leader :: "InmemLogStore Server" where
  "scenario_leader = fresh_node\<lparr>state := Leader, currentTerm := 2\<rparr>"

text \<open>A leader whose cached last-log index (7) is ahead of its empty store.\<close>

definition ahead_leader :: "InmemLogStore Server" where
  "ahead_leader = fresh_node\<lparr>state := Leader, currentTerm := 2, lastLogIndex := 7, lastLogTerm := 2\<rparr>"

text \<open>
  Three vote requests for term 1, from \<open>n2\<close>, \<open>n3\<close> and \<open>n2\<close> again, as a candidate
  builds them.
\<close>

definition scenario_votes :: "RequestVoteRequest list" where
  "scenario_votes =
     [newRequestVoteRequest 1 ''n2'' 1 0, newRequestVoteRequest 1 ''n3'' 1 0,
      newRequestVoteRequest 1 ''n2'' 1 0]"

text \<open>
  A proposed entry as a client hands it in, and as \<^verbatim>\<open>dispatchLog\<close> of a term-2 leader
  with two peers fills it in for index \<open>i\<close>.
\<close>

definition proposal :: Log where
  "proposal =
     \<lparr>log_Index = 0, log_Term = 0, log_Command = ''x=1'', log_majorityQuorum = 0, log_count = 0\<rparr>"

definition proposal_at :: "u64 \<Rightarrow> Log" where
  "proposal_at i =
     \<lparr>log_Index = i, log_Term = 2, log_Command = ''x=1'', log_majorityQuorum = 2, log_count = 0\<rparr>"

definition appendEntries_of ::
    "u64 \<Rightarrow> u64 \<Rightarrow> u64 \<Rightarrow> Log list \<Rightarrow> u64 \<Rightarrow> AppendEntryRequest" where
  "appendEntries_of t pi pt es ci =
     \<lparr>ae_Term = t, ae_Leader = ''n2'', ae_PrevLogIndex = pi, ae_PrevLogTerm = pt,
      ae_Entries = es, ae_LeaderCommitIndex = ci\<rparr>"

section \<open>Properties of the in-memory log store\<close>

lemma SetLogs_loop_entries: "SetLogs_loop i es = i\<lparr>entries := entries i @ es\<rparr>"
  by (induction es arbitrary: i) simp_all

lemma LastIndex_empty: "LastIndex NewInmemLogStore = Inr (0, None)"
  by (simp add: LastIndex_def NewInmemLogStore_def)

lemma GetLog_scan_find:
  "GetLog_scan es idx =
     (case find (\<lambda>entry. log_Index entry = idx) es of
        None \<Rightarrow> Inl (CantGetLog idx)
      | Some entry \<Rightarrow> Inr entry)"
  by (induction es) simp_all

text \<open>
  C3 says that \<^verbatim>\<open>DeleteRange(from, to)\<close> removes exactly the entries whose index lies
  in \<open>[from, to)\<close> and keeps the others in order. The code does not: on a store holding
  the entries with indices 1, 2, 3, \<^verbatim>\<open>DeleteRange(2, 3)\<close> finds the entry with index 2
  and then cuts the slice at position 2, which holds the entry with index 3. The entry
  with index 2 stays and the entry with index 3 is gone, where the claim asks for the
  entries with indices 1 and 3 to remain.
\<close>

theorem DeleteRange_removes_wrong_entry:
  "DeleteRange \<lparr>entries = [Log_lit 1 1, Log_lit 2 1, Log_lit 3 1]\<rparr> 2 3
     = Inr (\<lparr>entries = [Log_lit 1 1, Log_lit 2 1]\<rparr>, None)
   \<and> filter (\<lambda>entry. \<not> (2 \<le> log_Index entry \<and> log_Index entry < 3))
         [Log_lit 1 1, Log_lit 2 1, Log_lit 3 1]
       = [Log_lit 1 1, Log_lit 3 1]"
proof (rule conjI)
  show "DeleteRange \<lparr>entries = [Log_lit 1 1, Log_lit 2 1, Log_lit 3 1]\<rparr> 2 3
          = Inr (\<lparr>entries = [Log_lit 1 1, Log_lit 2 1]\<rparr>, None)"
    by (simp add: DeleteRange_def DeleteRange_pass_def DeleteRange_body_def Log_lit_def upt_rec)
  show "filter (\<lambda>entry. \<not> (2 \<le> log_Index entry \<and> log_Index entry < 3))
          [Log_lit 1 1, Log_lit 2 1, Log_lit 3 1]
        = [Log_lit 1 1, Log_lit 3 1]"
    by (simp add: Log_lit_def word_le_nat_alt word_less_nat_alt)
qed

text \<open>
  When the entry to delete is the last one, the same slice expression is out of range
  and the call panics.
\<close>

lemma DeleteRange_last_entry_panics:
  "DeleteRange \<lparr>entries = [Log_lit 1 1, Log_lit 2 1]\<rparr> 2 3 = Inl SliceBoundsOutOfRange"
  by (simp add: DeleteRange_def DeleteRange_pass_def DeleteRange_body_def Log_lit_def upt_rec)

text \<open>
  C4, as amended: \<^verbatim>\<open>SetLog\<close> appends the entry and \<^verbatim>\<open>SetLogs\<close> appends the batch, in
  order, at the end of the store, and both return no error, whatever the indices of
  the entries are. The in-memory store has no contiguity check.
\<close>

theorem SetLog_SetLogs_always_append:
  "SetLog i entry = Inr (i\<lparr>entries := entries i @ [entry]\<rparr>, None)
   \<and> SetLogs i es = Inr (i\<lparr>entries := entries i @ es\<rparr>, None)"
  by (simp add: SetLog_def SetLogs_def SetLogs_loop_entries)

text \<open>
  C4 as stated fails: the empty store has last index 0, an entry with index 5 is not
  one past it, and yet \<^verbatim>\<open>SetLog\<close> returns no error and the store holds the entry;
  \<^verbatim>\<open>SetLogs\<close> likewise accepts a batch that starts at 5 and jumps to 9.
\<close>

theorem SetLog_noncontiguous_counterexample:
  "LastIndex NewInmemLogStore = Inr (0, None)
   \<and> log_Index (Log_lit 5 1) \<noteq> 0 + 1
   \<and> SetLog NewInmemLogStore (Log_lit 5 1) = Inr (\<lparr>entries = [Log_lit 5 1]\<rparr>, None)
   \<and> SetLogs NewInmemLogStore [Log_lit 5 1, Log_lit 9 1]
        = Inr (\<lparr>entries = [Log_lit 5 1, Log_lit 9 1]\<rparr>, None)"
  by (simp add: LastIndex_def NewInmemLogStore_def SetLog_def SetLogs_def Log_lit_def)

text \<open>
  C5 says that on an empty store \<^verbatim>\<open>FirstIndex\<close> and \<^verbatim>\<open>LastIndex\<close> both return zero
  and neither faults. \<^verbatim>\<open>LastIndex\<close> does (lemma \<open>LastIndex_empty\<close>); \<^verbatim>\<open>FirstIndex\<close>
  reads element 0 of the empty slice and panics.
\<close>

theorem FirstIndex_empty_panics:
  "FirstIndex NewInmemLogStore = Inl IndexOutOfRange"
  by (simp add: FirstIndex_def NewInmemLogStore_def)

section \<open>Properties of \<^verbatim>\<open>processAppendEntries\<close>\<close>

lemmas accessors = State_def Term_def LastLogIndex_def LastLog_def CommitIndex_def LocalAddress_def
  setState_def setTerm_def setLeader_def setLastLog_def setCommitIndex_def

lemmas examples = fresh_node_def scenario_follower_def scenario_candidate_def lone_candidate_def
  scenario_leader_def ahead_leader_def appendEntries_of_def Log_lit_def NewInmemLogStore_def

lemma processAppendEntries_commit_fields:
  "processAppendEntries_commit s resp req =
     (s\<lparr>commitIndex := (if ae_LeaderCommitIndex req > commitIndex s
                          then min (ae_LeaderCommitIndex req) (lastLogIndex s)
                          else commitIndex s)\<rparr>,
      resp\<lparr>aer_Success := True\<rparr>, None)"
  by (simp add: processAppendEntries_commit_def accessors)

lemma processAppendEntries_entries_Inmem:
  assumes "processAppendEntries_entries Inmem s resp req = Inr (s', resp', err)"
  shows "aer_Success resp'
         \<and> lastLogIndex s' =
             (if ae_Entries req = [] then lastLogIndex s else log_Index (last (ae_Entries req)))
         \<and> commitIndex s' =
             (if ae_LeaderCommitIndex req > commitIndex s
              then min (ae_LeaderCommitIndex req) (lastLogIndex s')
              else commitIndex s)"
proof (cases "ae_Entries req = []")
  case True
  then show ?thesis
    using assms
    by (auto simp: processAppendEntries_entries_def processAppendEntries_commit_fields)
next
  case False
  let ?first = "ae_Entries req ! 0"
  let ?cut = "if log_Index ?first \<le> lastLogIndex s
              then DeleteRange (logs s) (log_Index ?first) (lastLogIndex s)
              else Inr (logs s, None)"
  from False have n: "0 < length (ae_Entries req)" by simp
  have unf: "processAppendEntries_entries Inmem s resp req =
     (case ?cut of
        Inl f \<Rightarrow> Inl f
      | Inr (ls1, Some err) \<Rightarrow> Inr (s\<lparr>logs := ls1\<rparr>, resp, None)
      | Inr (ls1, None) \<Rightarrow>
          Inr (processAppendEntries_commit
                 (s\<lparr>logs := ls1\<lparr>entries := entries ls1 @ ae_Entries req\<rparr>,
                     lastLogIndex := log_Index (last (ae_Entries req)),
                     lastLogTerm := log_Term (last (ae_Entries req))\<rparr>)
                 (resp\<lparr>aer_LastLogIndex := log_Index (last (ae_Entries req))\<rparr>) req))"
    using n False
    by (simp add: processAppendEntries_entries_def Inmem_def SetLogs_def SetLogs_loop_entries
          accessors Let_def last_conv_nth split: sum.splits prod.splits option.splits)
  have noerr: "\<And>ls1 e. ?cut \<noteq> Inr (ls1, Some e)"
    by (auto simp: DeleteRange_def split: sum.splits)
  show ?thesis
  proof (cases ?cut)
    case (Inl f)
    then show ?thesis
      using assms unf by simp
  next
    case (Inr p)
    obtain ls1 e where p: "p = (ls1, e)" by (cases p)
    with Inr noerr have "e = None" by (cases e) auto
    with Inr p assms unf False show ?thesis
      by (auto simp: processAppendEntries_commit_fields)
  qed
qed

lemma conjI6: "A \<and> B \<and> C \<and> D \<and> E \<Longrightarrow> F \<Longrightarrow> A \<and> B \<and> C \<and> D \<and> E \<and> F"
  by simp

lemma prevLogTerm_Inmem:
  assumes "lastLogIndex s2 = lastLogIndex s" and "lastLogTerm s2 = lastLogTerm s"
      and "logs s2 = logs s"
  shows "processAppendEntries_prevLogTerm Inmem s2 req =
           (case storedTermAt s (ae_PrevLogIndex req) of
              None \<Rightarrow> Inr (Inl (CantGetLog (ae_PrevLogIndex req)))
            | Some t \<Rightarrow> Inr (Inr t))"
proof (cases "ae_PrevLogIndex req = lastLogIndex s")
  case True
  then show ?thesis
    using assms by (simp add: processAppendEntries_prevLogTerm_def storedTermAt_def LastLog_def)
next
  case False
  have "GetLog_scan es idx = Inl e \<Longrightarrow> e = CantGetLog idx" for es idx e
    by (induction es) (auto split: if_splits)
  then show ?thesis
    using assms False
    by (auto simp: processAppendEntries_prevLogTerm_def storedTermAt_def LastLog_def Inmem_def
          GetLog_def split: sum.splits)
qed

lemma processAppendEntries_unfold:
  assumes "\<not> ae_Term req < currentTerm s"
  shows "\<exists>s2 resp1.
           lastLogIndex s2 = lastLogIndex s \<and> lastLogTerm s2 = lastLogTerm s
           \<and> commitIndex s2 = commitIndex s \<and> logs s2 = logs s \<and> \<not> aer_Success resp1
           \<and> processAppendEntries Inmem s req =
               (case storedTermAt s (ae_PrevLogIndex req) of
                  None \<Rightarrow> Inr (s2, resp1, None)
                | Some t \<Rightarrow> if ae_PrevLogTerm req \<noteq> t then Inr (s2, resp1, None)
                            else processAppendEntries_entries Inmem s2 resp1 req)"
proof -
  have main: "\<exists>s2 resp1.
           lastLogIndex s2 = lastLogIndex s \<and> lastLogTerm s2 = lastLogTerm s
           \<and> commitIndex s2 = commitIndex s \<and> logs s2 = logs s \<and> \<not> aer_Success resp1
           \<and> processAppendEntries Inmem s req =
               (case processAppendEntries_prevLogTerm Inmem s2 req of
                  Inl f \<Rightarrow> Inl f
                | Inr (Inl err) \<Rightarrow> Inr (s2, resp1, None)
                | Inr (Inr prevLogTerm) \<Rightarrow>
                    if ae_PrevLogTerm req \<noteq> prevLogTerm then Inr (s2, resp1, None)
                    else processAppendEntries_entries Inmem s2 resp1 req)"
  proof (cases "ae_Term req > Term s \<or> State s \<noteq> Follower")
    case True
    let ?s2 = "setLeader (ae_Leader req) (setState Follower (setTerm (ae_Term req) s))"
    let ?resp1 = "\<lparr>aer_Term = ae_Term req, aer_LastLogIndex = LastLogIndex s, aer_Success = False\<rparr>"
    have "processAppendEntries Inmem s req =
            (case processAppendEntries_prevLogTerm Inmem ?s2 req of
               Inl f \<Rightarrow> Inl f
             | Inr (Inl err) \<Rightarrow> Inr (?s2, ?resp1, None)
             | Inr (Inr prevLogTerm) \<Rightarrow>
                 if ae_PrevLogTerm req \<noteq> prevLogTerm then Inr (?s2, ?resp1, None)
                 else processAppendEntries_entries Inmem ?s2 ?resp1 req)"
      using assms True by (simp add: processAppendEntries_def Let_def Term_def cong: sum.case_cong if_cong)
    moreover have "lastLogIndex ?s2 = lastLogIndex s \<and> lastLogTerm ?s2 = lastLogTerm s
           \<and> commitIndex ?s2 = commitIndex s \<and> logs ?s2 = logs s \<and> \<not> aer_Success ?resp1"
      by (simp add: accessors)
    ultimately show ?thesis
      by (intro exI [of _ ?s2] exI [of _ ?resp1]) (rule conjI6 [rotated])
  next
    case False
    let ?s2 = "setLeader (ae_Leader req) s"
    let ?resp1 = "\<lparr>aer_Term = Term s, aer_LastLogIndex = LastLogIndex s, aer_Success = False\<rparr>"
    have "processAppendEntries Inmem s req =
            (case processAppendEntries_prevLogTerm Inmem ?s2 req of
               Inl f \<Rightarrow> Inl f
             | Inr (Inl err) \<Rightarrow> Inr (?s2, ?resp1, None)
             | Inr (Inr prevLogTerm) \<Rightarrow>
                 if ae_PrevLogTerm req \<noteq> prevLogTerm then Inr (?s2, ?resp1, None)
                 else processAppendEntries_entries Inmem ?s2 ?resp1 req)"
      using assms False by (simp add: processAppendEntries_def Let_def Term_def cong: sum.case_cong if_cong)
    moreover have "lastLogIndex ?s2 = lastLogIndex s \<and> lastLogTerm ?s2 = lastLogTerm s
           \<and> commitIndex ?s2 = commitIndex s \<and> logs ?s2 = logs s \<and> \<not> aer_Success ?resp1"
      by (simp add: accessors)
    ultimately show ?thesis
      by (intro exI [of _ ?s2] exI [of _ ?resp1]) (rule conjI6 [rotated])
  qed
  then obtain s2 resp1 where same: "lastLogIndex s2 = lastLogIndex s" "lastLogTerm s2 = lastLogTerm s"
      "commitIndex s2 = commitIndex s" "logs s2 = logs s" "\<not> aer_Success resp1"
    and run: "processAppendEntries Inmem s req =
               (case processAppendEntries_prevLogTerm Inmem s2 req of
                  Inl f \<Rightarrow> Inl f
                | Inr (Inl err) \<Rightarrow> Inr (s2, resp1, None)
                | Inr (Inr prevLogTerm) \<Rightarrow>
                    if ae_PrevLogTerm req \<noteq> prevLogTerm then Inr (s2, resp1, None)
                    else processAppendEntries_entries Inmem s2 resp1 req)"
    by (elim exE conjE)
  have "processAppendEntries Inmem s req =
          (case storedTermAt s (ae_PrevLogIndex req) of
             None \<Rightarrow> Inr (s2, resp1, None)
           | Some t \<Rightarrow> if ae_PrevLogTerm req \<noteq> t then Inr (s2, resp1, None)
                       else processAppendEntries_entries Inmem s2 resp1 req)"
    by (simp add: run prevLogTerm_Inmem [OF same(1,2,4)] split: option.splits)
  with same show ?thesis
    by blast
qed

text \<open>
  C1. An AppendEntries request whose \<^verbatim>\<open>prevLogTerm\<close> is not the term the node holds
  for \<^verbatim>\<open>prevLogIndex\<close> (the cached last-log term at the cached last-log index,
  otherwise the term of the entry the store finds), or for whose \<^verbatim>\<open>prevLogIndex\<close> the
  store finds no entry, is answered with \<open>success = false\<close>, and the log store is left
  as it was. The handler does return in that case, and with no error.
\<close>

theorem processAppendEntries_mismatch:
  assumes "storedTermAt s (ae_PrevLogIndex req) \<noteq> Some (ae_PrevLogTerm req)"
  shows "\<exists>s' resp. processAppendEntries Inmem s req = Inr (s', resp, None)
           \<and> \<not> aer_Success resp \<and> logs s' = logs s"
proof (cases "ae_Term req < currentTerm s")
  case True
  then show ?thesis
    by (simp add: processAppendEntries_def Term_def)
next
  case False
  from processAppendEntries_unfold [OF False]
  obtain s2 resp1 where same: "logs s2 = logs s" "\<not> aer_Success resp1"
    and run: "processAppendEntries Inmem s req =
               (case storedTermAt s (ae_PrevLogIndex req) of
                  None \<Rightarrow> Inr (s2, resp1, None)
                | Some t \<Rightarrow> if ae_PrevLogTerm req \<noteq> t then Inr (s2, resp1, None)
                            else processAppendEntries_entries Inmem s2 resp1 req)"
    by (elim exE conjE)
  from run assms have "processAppendEntries Inmem s req = Inr (s2, resp1, None)"
    by (cases "storedTermAt s (ae_PrevLogIndex req)") auto
  with same show ?thesis
    by simp
qed

theorem processAppendEntries_mismatch_witness:
  "storedTermAt scenario_follower (ae_PrevLogIndex (appendEntries_of 3 5 2 [] 0))
     \<noteq> Some (ae_PrevLogTerm (appendEntries_of 3 5 2 [] 0))
   \<and> (\<exists>s' resp. processAppendEntries Inmem scenario_follower (appendEntries_of 3 5 2 [] 0)
                    = Inr (s', resp, None)
         \<and> \<not> aer_Success resp \<and> logs s' = logs scenario_follower)
   \<and> storedTermAt scenario_follower (ae_PrevLogIndex (appendEntries_of 3 9 3 [Log_lit 10 3] 0))
     \<noteq> Some (ae_PrevLogTerm (appendEntries_of 3 9 3 [Log_lit 10 3] 0))
   \<and> (\<exists>s' resp. processAppendEntries Inmem scenario_follower (appendEntries_of 3 9 3 [Log_lit 10 3] 0)
                    = Inr (s', resp, None)
         \<and> \<not> aer_Success resp \<and> logs s' = logs scenario_follower)"
proof -
  have h1: "storedTermAt scenario_follower (ae_PrevLogIndex (appendEntries_of 3 5 2 [] 0))
              \<noteq> Some (ae_PrevLogTerm (appendEntries_of 3 5 2 [] 0))"
    by (simp add: storedTermAt_def examples)
  have h2: "storedTermAt scenario_follower (ae_PrevLogIndex (appendEntries_of 3 9 3 [Log_lit 10 3] 0))
              \<noteq> Some (ae_PrevLogTerm (appendEntries_of 3 9 3 [Log_lit 10 3] 0))"
    by (simp add: storedTermAt_def GetLog_def examples)
  note c1 = processAppendEntries_mismatch [OF h1]
  note c2 = processAppendEntries_mismatch [OF h2]
  show ?thesis
    by (intro conjI h1 h2 c1 c2)
qed

text \<open>
  The handler returns whenever no entry has to be deleted first; only \<^verbatim>\<open>DeleteRange\<close>
  can make it panic.
\<close>

lemma processAppendEntries_returns:
  assumes "ae_Entries req = [] \<or> lastLogIndex s < log_Index (hd (ae_Entries req))"
  shows "\<exists>s' resp err. processAppendEntries Inmem s req = Inr (s', resp, err)"
proof -
  have entries: "\<exists>s' resp' err. processAppendEntries_entries Inmem s2 resp1 req = Inr (s', resp', err)"
    if "lastLogIndex s2 = lastLogIndex s" for s2 :: "InmemLogStore Server" and resp1
    using assms that
    by (cases "ae_Entries req")
       (auto simp: processAppendEntries_entries_def processAppendEntries_commit_fields Inmem_def
          SetLogs_def accessors Let_def)
  show ?thesis
  proof (cases "ae_Term req < currentTerm s")
    case True
    then show ?thesis
      by (simp add: processAppendEntries_def Term_def)
  next
    case False
    from processAppendEntries_unfold [OF False]
    obtain s2 resp1 where same: "lastLogIndex s2 = lastLogIndex s"
      and run: "processAppendEntries Inmem s req =
               (case storedTermAt s (ae_PrevLogIndex req) of
                  None \<Rightarrow> Inr (s2, resp1, None)
                | Some t \<Rightarrow> if ae_PrevLogTerm req \<noteq> t then Inr (s2, resp1, None)
                            else processAppendEntries_entries Inmem s2 resp1 req)"
      by (elim exE conjE)
    from entries [OF same, of resp1] run show ?thesis
      by (cases "storedTermAt s (ae_PrevLogIndex req)") auto
  qed
qed

text \<open>
  C6 says that every AppendEntries request that passes the term check and the
  consistency check has the commit index set to \<open>min(leaderCommitIndex, lastLogIndex)\<close>
  when \<open>leaderCommitIndex\<close> is above it. The code does not reach the commit step for
  an ordinary conflict-resolution request: the follower holding the entries 1 to 5
  receives the entry for index 2 with \<open>prevLogIndex = 1\<close>, \<open>prevLogTerm = 1\<close> and
  \<open>leaderCommitIndex = 4\<close>. Both checks pass and the commit index (0) is below 4, but
  \<^verbatim>\<open>DeleteRange(2, 5)\<close> panics (at \<open>j = 4\<close>, after the cut at \<open>j = 2\<close> has shortened the
  slice to four entries), so the handler never sets the commit index.
\<close>

theorem processAppendEntries_commit_not_reached:
  "\<not> ae_Term (appendEntries_of 3 1 1 [Log_lit 2 3] 4) < currentTerm scenario_follower
   \<and> storedTermAt scenario_follower (ae_PrevLogIndex (appendEntries_of 3 1 1 [Log_lit 2 3] 4))
       = Some (ae_PrevLogTerm (appendEntries_of 3 1 1 [Log_lit 2 3] 4))
   \<and> commitIndex scenario_follower < ae_LeaderCommitIndex (appendEntries_of 3 1 1 [Log_lit 2 3] 4)
   \<and> processAppendEntries Inmem scenario_follower (appendEntries_of 3 1 1 [Log_lit 2 3] 4)
       = Inl SliceBoundsOutOfRange"
proof (intro conjI)
  let ?req = "appendEntries_of 3 1 1 [Log_lit 2 3] 4"
  show a: "\<not> ae_Term ?req < currentTerm scenario_follower"
    by (simp add: examples)
  show b: "storedTermAt scenario_follower (ae_PrevLogIndex ?req) = Some (ae_PrevLogTerm ?req)"
    by (simp add: storedTermAt_def GetLog_def examples)
  show "commitIndex scenario_follower < ae_LeaderCommitIndex ?req"
    by (simp add: examples)
  have cut: "DeleteRange (logs scenario_follower) 2 5 = Inl SliceBoundsOutOfRange"
    by (simp add: DeleteRange_def DeleteRange_pass_def DeleteRange_body_def examples upt_rec)
  from processAppendEntries_unfold [OF a]
  obtain s2 resp1 where same: "lastLogIndex s2 = lastLogIndex scenario_follower"
      "logs s2 = logs scenario_follower"
    and run: "processAppendEntries Inmem scenario_follower ?req =
               (case storedTermAt scenario_follower (ae_PrevLogIndex ?req) of
                  None \<Rightarrow> Inr (s2, resp1, None)
                | Some t \<Rightarrow> if ae_PrevLogTerm ?req \<noteq> t then Inr (s2, resp1, None)
                            else processAppendEntries_entries Inmem s2 resp1 ?req)"
    by (elim exE conjE)
  have five: "lastLogIndex scenario_follower = 5"
    by (simp add: examples)
  have "processAppendEntries_entries Inmem s2 resp1 ?req = Inl SliceBoundsOutOfRange"
    using cut same five
    by (simp add: processAppendEntries_entries_def Inmem_def LastLogIndex_def Let_def
          appendEntries_of_def Log_lit_def word_le_nat_alt)
  with run b show "processAppendEntries Inmem scenario_follower ?req = Inl SliceBoundsOutOfRange"
    by simp
qed

text \<open>
  What does hold: when the handler returns for a request that passed both checks, it
  answers \<open>success = true\<close> and the commit index follows the rule. \<open>lastLogIndex\<close> is
  the cached marker after the entries were appended.
\<close>

lemma processAppendEntries_commitIndex:
  assumes "\<not> ae_Term req < currentTerm s"
      and "storedTermAt s (ae_PrevLogIndex req) = Some (ae_PrevLogTerm req)"
      and "processAppendEntries Inmem s req = Inr (s', resp, err)"
  shows "aer_Success resp
         \<and> lastLogIndex s' =
             (if ae_Entries req = [] then lastLogIndex s else log_Index (last (ae_Entries req)))
         \<and> commitIndex s' =
             (if ae_LeaderCommitIndex req > commitIndex s
              then min (ae_LeaderCommitIndex req) (lastLogIndex s')
              else commitIndex s)"
proof -
  from processAppendEntries_unfold [OF assms(1)]
  obtain s2 resp1 where same: "lastLogIndex s2 = lastLogIndex s" "commitIndex s2 = commitIndex s"
    and run: "processAppendEntries Inmem s req =
               (case storedTermAt s (ae_PrevLogIndex req) of
                  None \<Rightarrow> Inr (s2, resp1, None)
                | Some t \<Rightarrow> if ae_PrevLogTerm req \<noteq> t then Inr (s2, resp1, None)
                            else processAppendEntries_entries Inmem s2 resp1 req)"
    by (elim exE conjE)
  from run assms(2,3) have "processAppendEntries_entries Inmem s2 resp1 req = Inr (s', resp, err)"
    by simp
  from processAppendEntries_entries_Inmem [OF this] same show ?thesis
    by simp
qed


lemma processAppendEntries_commitIndex_example:
  "\<not> ae_Term (appendEntries_of 1 0 0 [Log_lit 1 1, Log_lit 2 1] 5) < currentTerm fresh_node
   \<and> storedTermAt fresh_node (ae_PrevLogIndex (appendEntries_of 1 0 0 [Log_lit 1 1, Log_lit 2 1] 5))
       = Some (ae_PrevLogTerm (appendEntries_of 1 0 0 [Log_lit 1 1, Log_lit 2 1] 5))
   \<and> (\<exists>s' resp err.
         processAppendEntries Inmem fresh_node (appendEntries_of 1 0 0 [Log_lit 1 1, Log_lit 2 1] 5)
           = Inr (s', resp, err)
         \<and> aer_Success resp \<and> lastLogIndex s' = 2 \<and> commitIndex s' = 2)"
proof -
  let ?req = "appendEntries_of 1 0 0 [Log_lit 1 1, Log_lit 2 1] 5"
  have a: "\<not> ae_Term ?req < currentTerm fresh_node"
    by (simp add: examples)
  have b: "storedTermAt fresh_node (ae_PrevLogIndex ?req) = Some (ae_PrevLogTerm ?req)"
    by (simp add: storedTermAt_def examples)
  have "ae_Entries ?req = [] \<or> lastLogIndex fresh_node < log_Index (hd (ae_Entries ?req))"
    by (simp add: examples)
  from processAppendEntries_returns [OF this] obtain s' resp err
    where r: "processAppendEntries Inmem fresh_node ?req = Inr (s', resp, err)"
    by (elim exE)
  have last: "(if ae_Entries ?req = [] then lastLogIndex fresh_node
               else log_Index (last (ae_Entries ?req))) = 2"
    by (simp add: examples)
  have gt: "commitIndex fresh_node < ae_LeaderCommitIndex ?req"
    by (simp add: examples)
  have five: "min (ae_LeaderCommitIndex ?req) 2 = (2 :: u64)"
    by (simp add: examples)
  note t = processAppendEntries_commitIndex [OF a b r]
  have c: "aer_Success resp \<and> lastLogIndex s' = 2 \<and> commitIndex s' = 2"
    using t last gt five by simp
  have "\<exists>s' resp err. processAppendEntries Inmem fresh_node ?req = Inr (s', resp, err)
          \<and> aer_Success resp \<and> lastLogIndex s' = 2 \<and> commitIndex s' = 2"
    by (rule exI [of _ s'], rule exI [of _ resp], rule exI [of _ err]) (rule conjI [OF r c])
  then show ?thesis
    by (intro conjI a b)
qed

section \<open>Properties of the vote handling\<close>

lemma processRequestVote_cases:
  "processRequestVote s req =
     (if rv_Term req < currentTerm s
         \<or> (rv_Term req = currentTerm s \<and> votedFor s \<noteq> [] \<and> votedFor s \<noteq> rv_CandidateName req)
      then (s, \<lparr>rvr_Term = currentTerm s, rvr_VoteGranted = False\<rparr>, None)
      else if lastLogIndex s > rv_LastLogIndex req \<or> lastLogTerm s > rv_LastLogTerm req
      then (setTerm (rv_Term req) s, \<lparr>rvr_Term = rv_Term req, rvr_VoteGranted = False\<rparr>, None)
      else ((setTerm (rv_Term req) s)\<lparr>votedFor := rv_CandidateName req\<rparr>,
            \<lparr>rvr_Term = rv_Term req, rvr_VoteGranted = True\<rparr>, None))"
  by (auto simp: processRequestVote_def processRequestVote_log_def accessors Let_def)

lemma processRequestVote_step:
  assumes "processRequestVote s req = (s', resp, err)"
  shows "currentTerm s \<le> currentTerm s'"
    and "rvr_VoteGranted resp \<Longrightarrow> rvr_Term resp = currentTerm s' \<and> votedFor s' = rv_CandidateName req"
    and "currentTerm s' = currentTerm s \<Longrightarrow> votedFor s \<noteq> [] \<Longrightarrow> votedFor s' = votedFor s"
proof -
  show "currentTerm s \<le> currentTerm s'"
    using assms by (auto simp: processRequestVote_cases setTerm_def split: if_splits)
  show "rvr_VoteGranted resp \<Longrightarrow> rvr_Term resp = currentTerm s' \<and> votedFor s' = rv_CandidateName req"
    using assms by (auto simp: processRequestVote_cases setTerm_def split: if_splits)
  show "currentTerm s' = currentTerm s \<Longrightarrow> votedFor s \<noteq> [] \<Longrightarrow> votedFor s' = votedFor s"
    using assms by (auto simp: processRequestVote_cases setTerm_def split: if_splits)
qed

lemma voted_stays:
  assumes "A \<noteq> []" and "T \<le> currentTerm s" and "currentTerm s = T \<Longrightarrow> votedFor s = A"
      and "(req, resp) \<in> set (processRequestVote_seq s reqs)"
      and "rvr_VoteGranted resp" and "rvr_Term resp = T"
  shows "rv_CandidateName req = A"
  using assms
proof (induction reqs arbitrary: s)
  case Nil
  then show ?case by simp
next
  case (Cons r reqs)
  obtain s' resp' err' where step: "processRequestVote s r = (s', resp', err')"
    using prod_cases3 by blast
  have mono: "currentTerm s \<le> currentTerm s'"
    by (rule processRequestVote_step(1) [OF step])
  have keep: "currentTerm s' = T \<Longrightarrow> votedFor s' = A"
  proof -
    assume at: "currentTerm s' = T"
    with mono Cons.prems(2) have same: "currentTerm s = T" by simp
    then have "votedFor s = A" by (rule Cons.prems(3))
    with processRequestVote_step(3) [OF step] at same Cons.prems(1) show "votedFor s' = A"
      by simp
  qed
  from Cons.prems(4) step
  consider (head) "req = r" "resp = resp'" | (tail) "(req, resp) \<in> set (processRequestVote_seq s' reqs)"
    by auto
  then show ?case
  proof cases
    case head
    from processRequestVote_step(2) [OF step] head Cons.prems(5,6)
    have "currentTerm s' = T" and "votedFor s' = rv_CandidateName req"
      by simp_all
    with keep show ?thesis by simp
  next
    case tail
    have "T \<le> currentTerm s'"
      using Cons.prems(2) mono by simp
    then show ?thesis
      using Cons.IH [of s'] Cons.prems(1,5,6) tail keep by blast
  qed
qed

text \<open>
  C2, as amended. A node handles a sequence of vote requests. If it grants its vote to
  a candidate with a non-empty name, then every later grant whose response carries the
  same term goes to that same candidate. (A granting response carries the node's
  current term.)
\<close>

theorem processRequestVote_one_vote_per_term:
  assumes "out = processRequestVote_seq s reqs"
      and "i < j" and "j < length out"
      and "rvr_VoteGranted (snd (out ! i))" and "rvr_VoteGranted (snd (out ! j))"
      and "rvr_Term (snd (out ! i)) = rvr_Term (snd (out ! j))"
      and "rv_CandidateName (fst (out ! i)) \<noteq> []"
  shows "rv_CandidateName (fst (out ! j)) = rv_CandidateName (fst (out ! i))"
  using assms
proof (induction reqs arbitrary: s out i j)
  case Nil
  then show ?case by simp
next
  case (Cons r reqs)
  obtain s' resp' err' where step: "processRequestVote s r = (s', resp', err')"
    using prod_cases3 by blast
  define rest where "rest = processRequestVote_seq s' reqs"
  have out: "out = (r, resp') # rest"
    using Cons.prems(1) step by (simp add: rest_def)
  obtain j' where j: "j = Suc j'"
    using Cons.prems(2) by (cases j) auto
  have j'len: "j' < length rest"
    using Cons.prems(3) out j by simp
  show ?case
  proof (cases i)
    case 0
    have granted: "rvr_VoteGranted resp'" and name: "rv_CandidateName r \<noteq> []"
      using Cons.prems(4,7) out 0 by simp_all
    from processRequestVote_step(2) [OF step granted]
    have tm: "rvr_Term resp' = currentTerm s'" and voted: "votedFor s' = rv_CandidateName r"
      by simp_all
    have mem: "(fst (rest ! j'), snd (rest ! j')) \<in> set (processRequestVote_seq s' reqs)"
      using j'len by (simp add: rest_def)
    have t: "rvr_Term (snd (rest ! j')) = currentTerm s'"
      using Cons.prems(6) out 0 j tm by simp
    have g: "rvr_VoteGranted (snd (rest ! j'))"
      using Cons.prems(5) out j by simp
    have "rv_CandidateName (fst (rest ! j')) = rv_CandidateName r"
      by (rule voted_stays [OF name order_refl voted mem g t])
    then show ?thesis
      using out 0 j by simp
  next
    case (Suc i')
    have "rv_CandidateName (fst (rest ! j')) = rv_CandidateName (fst (rest ! i'))"
    proof (rule Cons.IH [of rest s' i' j'])
      show "rest = processRequestVote_seq s' reqs" by (simp add: rest_def)
      show "i' < j'" using Cons.prems(2) j Suc by simp
      show "j' < length rest" by (rule j'len)
      show "rvr_VoteGranted (snd (rest ! i'))" using Cons.prems(4) out Suc by simp
      show "rvr_VoteGranted (snd (rest ! j'))" using Cons.prems(5) out j by simp
      show "rvr_Term (snd (rest ! i')) = rvr_Term (snd (rest ! j'))"
        using Cons.prems(6) out j Suc by simp
      show "rv_CandidateName (fst (rest ! i')) \<noteq> []" using Cons.prems(7) out Suc by simp
    qed
    then show ?thesis
      using out j Suc by simp
  qed
qed

theorem processRequestVote_one_vote_per_term_witness:
  "(0 :: nat) < 2 \<and> 2 < length (processRequestVote_seq fresh_node scenario_votes)
   \<and> rvr_VoteGranted (snd (processRequestVote_seq fresh_node scenario_votes ! 0))
   \<and> \<not> rvr_VoteGranted (snd (processRequestVote_seq fresh_node scenario_votes ! 1))
   \<and> rvr_VoteGranted (snd (processRequestVote_seq fresh_node scenario_votes ! 2))
   \<and> rvr_Term (snd (processRequestVote_seq fresh_node scenario_votes ! 0))
       = rvr_Term (snd (processRequestVote_seq fresh_node scenario_votes ! 2))
   \<and> rv_CandidateName (fst (processRequestVote_seq fresh_node scenario_votes ! 0)) \<noteq> []
   \<and> rv_CandidateName (fst (processRequestVote_seq fresh_node scenario_votes ! 2))
       = rv_CandidateName (fst (processRequestVote_seq fresh_node scenario_votes ! 0))"
proof -
  let ?out = "processRequestVote_seq fresh_node scenario_votes"
  have ev: "?out =
      [(newRequestVoteRequest 1 ''n2'' 1 0, \<lparr>rvr_Term = 1, rvr_VoteGranted = True\<rparr>),
       (newRequestVoteRequest 1 ''n3'' 1 0, \<lparr>rvr_Term = 1, rvr_VoteGranted = False\<rparr>),
       (newRequestVoteRequest 1 ''n2'' 1 0, \<lparr>rvr_Term = 1, rvr_VoteGranted = True\<rparr>)]"
    by (simp add: scenario_votes_def fresh_node_def processRequestVote_cases
          newRequestVoteRequest_def setTerm_def)
  have h1: "(0 :: nat) < 2" by simp
  have h2: "2 < length ?out" by (simp add: ev)
  have h3: "rvr_VoteGranted (snd (?out ! 0))" by (simp add: ev)
  have h4: "rvr_VoteGranted (snd (?out ! 2))" by (simp add: ev)
  have h5: "rvr_Term (snd (?out ! 0)) = rvr_Term (snd (?out ! 2))" by (simp add: ev)
  have h6: "rv_CandidateName (fst (?out ! 0)) \<noteq> []" by (simp add: ev newRequestVoteRequest_def)
  have n: "\<not> rvr_VoteGranted (snd (?out ! 1))" by (simp add: ev)
  note c = processRequestVote_one_vote_per_term [OF refl h1 h2 h3 h4 h5 h6]
  show ?thesis
    by (intro conjI h1 h2 h3 n h4 h5 h6 c)
qed

text \<open>
  C2 as stated fails for a candidate whose name is the empty string, the value
  \<^verbatim>\<open>votedFor\<close> also has when no vote was cast: a fresh node grants its vote for term 1
  to the candidate with the empty name and then, still in term 1, to \<open>n3\<close>.
\<close>

theorem processRequestVote_two_votes_counterexample:
  "processRequestVote_seq fresh_node
     [newRequestVoteRequest 1 [] 1 0, newRequestVoteRequest 1 ''n3'' 1 0]
   = [(newRequestVoteRequest 1 [] 1 0, \<lparr>rvr_Term = 1, rvr_VoteGranted = True\<rparr>),
      (newRequestVoteRequest 1 ''n3'' 1 0, \<lparr>rvr_Term = 1, rvr_VoteGranted = True\<rparr>)]
   \<and> rv_CandidateName (newRequestVoteRequest 1 [] 1 0)
       \<noteq> rv_CandidateName (newRequestVoteRequest 1 ''n3'' 1 0)"
  by (simp add: fresh_node_def processRequestVote_cases newRequestVoteRequest_def setTerm_def)

section \<open>Properties of \<^verbatim>\<open>dispatchLog\<close>\<close>

text \<open>
  C9. \<^verbatim>\<open>dispatchLog\<close> gives the proposed entry the index \<open>lastLogIndex + 1\<close>, the term
  \<open>currentTerm\<close>, the current quorum size and the count 0, and hands that entry to the
  store's \<^verbatim>\<open>SetLog\<close>. If \<^verbatim>\<open>SetLog\<close> fails, nothing but the store (as \<^verbatim>\<open>SetLog\<close> left
  it) differs afterwards: the cached last-log markers and the map of in-flight entries
  are unchanged. If it succeeds, the entry is recorded in the map under its index and
  the cached markers are \<open>(lastLogIndex + 1, currentTerm)\<close>. This holds for every
  implementation of the log store.
\<close>

theorem dispatchLog_assigns:
  assumes "entry = applyLog\<lparr>log_Term := currentTerm s, log_Index := lastLogIndex s + 1,
                             log_majorityQuorum := QuorumSize s, log_count := 0\<rparr>"
  shows "(ls_SetLog L (logs s) entry = Inr (ls', Some err) \<longrightarrow>
            dispatchLog L s applyLog = Inr (s\<lparr>logs := ls'\<rparr>))
       \<and> (ls_SetLog L (logs s) entry = Inr (ls', None) \<longrightarrow>
            dispatchLog L s applyLog =
              Inr (s\<lparr>logs := ls', applying := (applying s)(lastLogIndex s + 1 \<mapsto> entry),
                     lastLogIndex := lastLogIndex s + 1, lastLogTerm := currentTerm s\<rparr>))"
  using assms by (auto simp: dispatchLog_def accessors Let_def)

theorem dispatchLog_assigns_witness:
  "proposal_at 1 = proposal\<lparr>log_Term := currentTerm scenario_leader,
                              log_Index := lastLogIndex scenario_leader + 1,
                              log_majorityQuorum := QuorumSize scenario_leader, log_count := 0\<rparr>
   \<and> ls_SetLog Inmem (logs scenario_leader) (proposal_at 1) = Inr (\<lparr>entries = [proposal_at 1]\<rparr>, None)
   \<and> dispatchLog Inmem scenario_leader proposal =
        Inr (scenario_leader\<lparr>logs := \<lparr>entries = [proposal_at 1]\<rparr>,
               applying := (applying scenario_leader)(lastLogIndex scenario_leader + 1 \<mapsto> proposal_at 1),
               lastLogIndex := lastLogIndex scenario_leader + 1,
               lastLogTerm := currentTerm scenario_leader\<rparr>)
   \<and> proposal_at 8 = proposal\<lparr>log_Term := currentTerm ahead_leader,
                                log_Index := lastLogIndex ahead_leader + 1,
                                log_majorityQuorum := QuorumSize ahead_leader, log_count := 0\<rparr>
   \<and> ls_SetLog Contiguous (logs ahead_leader) (proposal_at 8) = Inr (logs ahead_leader, Some StoreError)
   \<and> dispatchLog Contiguous ahead_leader proposal = Inr (ahead_leader\<lparr>logs := logs ahead_leader\<rparr>)"
proof -
  have e1: "proposal_at 1 = proposal\<lparr>log_Term := currentTerm scenario_leader,
                              log_Index := lastLogIndex scenario_leader + 1,
                              log_majorityQuorum := QuorumSize scenario_leader, log_count := 0\<rparr>"
    by (simp add: proposal_at_def proposal_def scenario_leader_def fresh_node_def QuorumSize_def)
  have s1: "ls_SetLog Inmem (logs scenario_leader) (proposal_at 1)
              = Inr (\<lparr>entries = [proposal_at 1]\<rparr>, None)"
    by (simp add: Inmem_def SetLog_def scenario_leader_def fresh_node_def NewInmemLogStore_def)
  have e8: "proposal_at 8 = proposal\<lparr>log_Term := currentTerm ahead_leader,
                                log_Index := lastLogIndex ahead_leader + 1,
                                log_majorityQuorum := QuorumSize ahead_leader, log_count := 0\<rparr>"
    by (simp add: proposal_at_def proposal_def ahead_leader_def fresh_node_def QuorumSize_def)
  have s8: "ls_SetLog Contiguous (logs ahead_leader) (proposal_at 8)
              = Inr (logs ahead_leader, Some StoreError)"
    by (simp add: Contiguous_def Inmem_def LastIndex_def proposal_at_def ahead_leader_def
          fresh_node_def NewInmemLogStore_def)
  have d1: "dispatchLog Inmem scenario_leader proposal =
        Inr (scenario_leader\<lparr>logs := \<lparr>entries = [proposal_at 1]\<rparr>,
               applying := (applying scenario_leader)(lastLogIndex scenario_leader + 1 \<mapsto> proposal_at 1),
               lastLogIndex := lastLogIndex scenario_leader + 1,
               lastLogTerm := currentTerm scenario_leader\<rparr>)"
    by (rule dispatchLog_assigns [OF e1, THEN conjunct2, THEN mp, OF s1])
  have d8: "dispatchLog Contiguous ahead_leader proposal = Inr (ahead_leader\<lparr>logs := logs ahead_leader\<rparr>)"
    by (rule dispatchLog_assigns [OF e8, THEN conjunct1, THEN mp, OF s8])
  show ?thesis
    by (intro conjI e1 s1 d1 e8 s8 d8)
qed

text \<open>With the in-memory store \<^verbatim>\<open>SetLog\<close> cannot fail, and the proposal is always kept.\<close>

lemma dispatchLog_Inmem:
  "dispatchLog Inmem s applyLog =
     (let entry = applyLog\<lparr>log_Term := currentTerm s, log_Index := lastLogIndex s + 1,
                             log_majorityQuorum := QuorumSize s, log_count := 0\<rparr>
      in Inr (s\<lparr>logs := (logs s)\<lparr>entries := entries (logs s) @ [entry]\<rparr>,
                 applying := (applying s)(lastLogIndex s + 1 \<mapsto> entry),
                 lastLogIndex := lastLogIndex s + 1, lastLogTerm := currentTerm s\<rparr>))"
  by (simp add: dispatchLog_def Inmem_def SetLog_def accessors Let_def)

section \<open>Properties of the candidate loop\<close>

lemma voteRound_fields:
  "srv (voteRound c) = (srv c)\<lparr>currentTerm := currentTerm (srv c) + 1, votedFor := localAddress (srv c)\<rparr>"
  "votesGranted (voteRound c) = 1"
  "doVote (voteRound c) = False"
  "replies (voteRound c) = replies c"
  "sent (voteRound c) =
     sent c @ map (\<lambda>peer. (peer, newRequestVoteRequest (currentTerm (srv c) + 1) (localAddress (srv c)) 1 0))
                  (peers (srv c))"
  by (simp_all add: voteRound_def Let_def LocalAddress_def)

lemma voteRound_doVote: "voteRound (c\<lparr>doVote := b\<rparr>) = voteRound c"
  by (simp add: voteRound_def Let_def)

lemma QuorumSize_voteRound: "QuorumSize (srv (voteRound c)) = QuorumSize (srv c)"
  by (simp add: voteRound_fields QuorumSize_def)

text \<open>The loop unfolded once, in the four situations an iteration can begin in.\<close>

lemma loop_exit:
  "state (srv c) \<noteq> Candidate \<Longrightarrow> runAsCandidate_loop L c evs = Returned c evs"
  by (subst runAsCandidate_loop.simps) (simp add: State_def)

lemma loop_Nil:
  "runAsCandidate_loop L c [] =
     (if state (srv c) \<noteq> Candidate then Returned c []
      else let c1 = (if doVote c then voteRound c else c)
           in if votesGranted c1 = QuorumSize (srv c1)
              then Returned (c1\<lparr>srv := (srv c1)\<lparr>state := Leader\<rparr>\<rparr>) []
              else Blocked c1)"
  by (subst runAsCandidate_loop.simps) (simp add: State_def setState_def Let_def)

lemma loop_promote:
  assumes "state (srv c) = Candidate"
      and "votesGranted (if doVote c then voteRound c else c) = QuorumSize (srv c)"
  shows "runAsCandidate_loop L c evs =
           Returned ((if doVote c then voteRound c else c)
                       \<lparr>srv := (srv (if doVote c then voteRound c else c))\<lparr>state := Leader\<rparr>\<rparr>) evs"
  using assms
  by (subst runAsCandidate_loop.simps) (simp add: State_def setState_def Let_def QuorumSize_voteRound)

lemma loop_waiting:
  assumes "state (srv c) = Candidate" and "\<not> doVote c" and "votesGranted c \<noteq> QuorumSize (srv c)"
  shows "runAsCandidate_loop L c (e # rest) =
     (case e of
        StopCh \<Rightarrow> Returned (c\<lparr>srv := (srv c)\<lparr>state := Stopped\<rparr>\<rparr>) rest
      | RespCh resp \<Rightarrow>
          (case processRequestVoteResponse (srv c) resp of
             (success, s') \<Rightarrow>
               runAsCandidate_loop L
                 (c\<lparr>srv := s', votesGranted := (if success then votesGranted c + 1 else votesGranted c)\<rparr>)
                 rest)
      | RpcCh rpc \<Rightarrow>
          (case processRPC L (srv c) rpc of
             Inl f \<Rightarrow> Panicked f c
           | Inr (s', reply) \<Rightarrow>
               runAsCandidate_loop L (c\<lparr>srv := s', replies := replies c @ [reply]\<rparr>) rest)
      | ElectionTimeoutC \<Rightarrow> runAsCandidate_loop L (c\<lparr>doVote := True\<rparr>) rest)"
  using assms
  by (subst runAsCandidate_loop.simps) (simp add: State_def setState_def Let_def split: Event.splits)

lemma loop_top:
  assumes "state (srv c) = Candidate"
      and "votesGranted (if doVote c then voteRound c else c) \<noteq> QuorumSize (srv c)"
  shows "runAsCandidate_loop L c evs = runAsCandidate_loop L (if doVote c then voteRound c else c) evs"
proof -
  let ?c1 = "if doVote c then voteRound c else c"
  have a: "state (srv ?c1) = Candidate" "\<not> doVote ?c1" "QuorumSize (srv ?c1) = QuorumSize (srv c)"
    using assms by (simp_all add: voteRound_fields QuorumSize_def)
  show ?thesis
    using assms a
    by (subst runAsCandidate_loop.simps, subst (2) runAsCandidate_loop.simps)
       (simp add: State_def Let_def)
qed

lemma top_waits:
  assumes "state (srv c) = Candidate"
      and "votesGranted (if doVote c then voteRound c else c) \<noteq> QuorumSize (srv c)"
  shows "state (srv (if doVote c then voteRound c else c)) = Candidate"
    and "\<not> doVote (if doVote c then voteRound c else c)"
    and "votesGranted (if doVote c then voteRound c else c)
           \<noteq> QuorumSize (srv (if doVote c then voteRound c else c))"
proof -
  show "state (srv (if doVote c then voteRound c else c)) = Candidate"
    using assms(1) by (simp add: voteRound_fields(1))
  show "\<not> doVote (if doVote c then voteRound c else c)"
    by (simp add: voteRound_fields(3))
  show "votesGranted (if doVote c then voteRound c else c)
          \<noteq> QuorumSize (srv (if doVote c then voteRound c else c))"
    using assms(2) by (cases "doVote c") (simp_all add: QuorumSize_voteRound)
qed

lemma blocked_top:
  assumes "runAsCandidate_loop L c evs = Blocked c'"
  shows "state (srv c) = Candidate"
    and "votesGranted (if doVote c then voteRound c else c) \<noteq> QuorumSize (srv c)"
proof -
  show cand: "state (srv c) = Candidate"
    using assms loop_exit [of c L evs] by auto
  show "votesGranted (if doVote c then voteRound c else c) \<noteq> QuorumSize (srv c)"
    using assms loop_promote [OF cand, of L evs] by auto
qed

text \<open>
  A run that is blocked in \<^verbatim>\<open>select\<close> is a Candidate short of the quorum, with the vote
  round done; and the events that arrive later are handled from that state on.
\<close>

lemma blocked:
  assumes "runAsCandidate_loop L c evs = Blocked c'"
  shows "state (srv c') = Candidate \<and> \<not> doVote c' \<and> votesGranted c' \<noteq> QuorumSize (srv c')
         \<and> runAsCandidate_loop L c (evs @ later) = runAsCandidate_loop L c' later"
  using assms
proof (induction evs arbitrary: c)
  case Nil
  let ?c1 = "if doVote c then voteRound c else c"
  note top = blocked_top [OF Nil]
  note c1 = top_waits [OF top]
  have "c' = ?c1"
    using Nil top c1 by (simp add: loop_Nil Let_def split: if_splits)
  then show ?case
    using c1 loop_top [OF top, of L later] by simp
next
  case (Cons e evs)
  let ?c1 = "if doVote c then voteRound c else c"
  note top = blocked_top [OF Cons.prems]
  note c1 = top_waits [OF top]
  have run: "runAsCandidate_loop L ?c1 (e # evs) = Blocked c'"
    using Cons.prems loop_top [OF top, of L "e # evs"] by simp
  have unf: "runAsCandidate_loop L c ((e # evs) @ later) = runAsCandidate_loop L ?c1 (e # evs @ later)"
    using loop_top [OF top, of L "(e # evs) @ later"] by simp
  show ?case
  proof (cases e)
    case StopCh
    then show ?thesis
      using run by (simp add: loop_waiting [OF c1])
  next
    case (RespCh resp)
    obtain success s' where r: "processRequestVoteResponse (srv ?c1) resp = (success, s')"
      by (cases "processRequestVoteResponse (srv ?c1) resp")
    let ?c2 = "?c1\<lparr>srv := s', votesGranted := (if success then votesGranted ?c1 + 1 else votesGranted ?c1)\<rparr>"
    have "runAsCandidate_loop L ?c2 evs = Blocked c'"
      using run RespCh r by (simp add: loop_waiting [OF c1])
    from Cons.IH [OF this] show ?thesis
      using unf RespCh r by (simp add: loop_waiting [OF c1])
  next
    case (RpcCh rpc)
    show ?thesis
    proof (cases "processRPC L (srv ?c1) rpc")
      case (Inl f)
      then show ?thesis
        using run RpcCh by (simp add: loop_waiting [OF c1])
    next
      case (Inr p)
      obtain s' reply where p: "p = (s', reply)"
        by (cases p)
      let ?c2 = "?c1\<lparr>srv := s', replies := replies ?c1 @ [reply]\<rparr>"
      have "runAsCandidate_loop L ?c2 evs = Blocked c'"
        using run RpcCh Inr p by (simp add: loop_waiting [OF c1])
      from Cons.IH [OF this] show ?thesis
        using unf RpcCh Inr p by (simp add: loop_waiting [OF c1])
    qed
  next
    case ElectionTimeoutC
    let ?c2 = "?c1\<lparr>doVote := True\<rparr>"
    have "runAsCandidate_loop L ?c2 evs = Blocked c'"
      using run ElectionTimeoutC by (simp add: loop_waiting [OF c1])
    from Cons.IH [OF this] show ?thesis
      using unf ElectionTimeoutC by (simp add: loop_waiting [OF c1])
  qed
qed

text \<open>
  C7. A vote round (\<open>voteRound\<close>, run on entry and after every election timeout)
  increments \<open>currentTerm\<close>, sets \<open>votedFor\<close> to the node's own address and sets
  \<open>votesGranted\<close> to 1. In the order of the conjuncts below:
  \<^item> what a round does to the term, the vote and the count;
  \<^item> on entry the loop runs a round, then becomes Leader at once if the quorum is 1,
    and otherwise waits in \<^verbatim>\<open>select\<close>;
  \<^item> a waiting loop that receives the election timeout runs a round again;
  \<^item> a waiting loop one vote short of the quorum that receives a granted vote of its
    term becomes Leader and returns, leaving the later events unread;
  \<^item> whenever an iteration begins with the count at the quorum (after its round, if
    one is due), the loop becomes Leader and returns with every pending event unread:
    the test comes before the \<^verbatim>\<open>select\<close>.
\<close>

theorem runAsCandidate_vote_round:
  "(currentTerm (srv (voteRound c)) = currentTerm (srv c) + 1
      \<and> votedFor (srv (voteRound c)) = localAddress (srv c)
      \<and> votesGranted (voteRound c) = 1)
   \<and> (state s = Candidate \<longrightarrow>
        runAsCandidate L s [] =
          (let c1 = voteRound (runAsCandidate_entry s)
           in if QuorumSize s = 1 then Returned (c1\<lparr>srv := (srv c1)\<lparr>state := Leader\<rparr>\<rparr>) []
              else Blocked c1))
   \<and> (runAsCandidate_loop L c evs = Blocked c' \<longrightarrow>
        runAsCandidate_loop L c (evs @ [ElectionTimeoutC]) =
          (if QuorumSize (srv c') = 1
           then Returned ((voteRound c')\<lparr>srv := (srv (voteRound c'))\<lparr>state := Leader\<rparr>\<rparr>) []
           else Blocked (voteRound c')))
   \<and> (runAsCandidate_loop L c evs = Blocked c' \<and> rvr_VoteGranted r
        \<and> rvr_Term r = currentTerm (srv c') \<and> votesGranted c' + 1 = QuorumSize (srv c') \<longrightarrow>
        runAsCandidate_loop L c (evs @ RespCh r # later) =
          Returned (c'\<lparr>srv := (srv c')\<lparr>state := Leader\<rparr>, votesGranted := votesGranted c' + 1\<rparr>) later)
   \<and> (state (srv c) = Candidate
        \<and> votesGranted (if doVote c then voteRound c else c) = QuorumSize (srv c) \<longrightarrow>
        runAsCandidate_loop L c evs =
          Returned ((if doVote c then voteRound c else c)
                      \<lparr>srv := (srv (if doVote c then voteRound c else c))\<lparr>state := Leader\<rparr>\<rparr>) evs)"
proof (intro conjI impI)
  show "currentTerm (srv (voteRound c)) = currentTerm (srv c) + 1"
    and "votedFor (srv (voteRound c)) = localAddress (srv c)"
    and "votesGranted (voteRound c) = 1"
    by (simp_all add: voteRound_fields)
next
  assume "state s = Candidate"
  then show "runAsCandidate L s [] =
          (let c1 = voteRound (runAsCandidate_entry s)
           in if QuorumSize s = 1 then Returned (c1\<lparr>srv := (srv c1)\<lparr>state := Leader\<rparr>\<rparr>) []
              else Blocked c1)"
    by (simp add: runAsCandidate_def runAsCandidate_entry_def loop_Nil Let_def voteRound_fields(2)
          QuorumSize_voteRound)
next
  assume b: "runAsCandidate_loop L c evs = Blocked c'"
  note st = blocked [OF b, of "[ElectionTimeoutC]"]
  have "runAsCandidate_loop L c' [ElectionTimeoutC] = runAsCandidate_loop L (c'\<lparr>doVote := True\<rparr>) []"
    using st by (simp add: loop_waiting)
  also have "\<dots> = (if QuorumSize (srv c') = 1
           then Returned ((voteRound c')\<lparr>srv := (srv (voteRound c'))\<lparr>state := Leader\<rparr>\<rparr>) []
           else Blocked (voteRound c'))"
    using st by (simp add: loop_Nil Let_def voteRound_doVote voteRound_fields(2) QuorumSize_voteRound)
  finally show "runAsCandidate_loop L c (evs @ [ElectionTimeoutC]) =
          (if QuorumSize (srv c') = 1
           then Returned ((voteRound c')\<lparr>srv := (srv (voteRound c'))\<lparr>state := Leader\<rparr>\<rparr>) []
           else Blocked (voteRound c'))"
    using st by simp
next
  assume a: "runAsCandidate_loop L c evs = Blocked c' \<and> rvr_VoteGranted r
        \<and> rvr_Term r = currentTerm (srv c') \<and> votesGranted c' + 1 = QuorumSize (srv c')"
  then have b: "runAsCandidate_loop L c evs = Blocked c'" by simp
  note st = blocked [OF b, of "RespCh r # later"]
  have "runAsCandidate_loop L c' (RespCh r # later) =
          runAsCandidate_loop L (c'\<lparr>srv := srv c', votesGranted := votesGranted c' + 1\<rparr>) later"
    using st a by (simp add: loop_waiting processRequestVoteResponse_def)
  also have "\<dots> = Returned (c'\<lparr>srv := (srv c')\<lparr>state := Leader\<rparr>, votesGranted := votesGranted c' + 1\<rparr>) later"
    using st a by (simp add: loop_promote)
  finally show "runAsCandidate_loop L c (evs @ RespCh r # later) =
          Returned (c'\<lparr>srv := (srv c')\<lparr>state := Leader\<rparr>, votesGranted := votesGranted c' + 1\<rparr>) later"
    using st by simp
next
  assume "state (srv c) = Candidate
        \<and> votesGranted (if doVote c then voteRound c else c) = QuorumSize (srv c)"
  then show "runAsCandidate_loop L c evs =
          Returned ((if doVote c then voteRound c else c)
                      \<lparr>srv := (srv (if doVote c then voteRound c else c))\<lparr>state := Leader\<rparr>\<rparr>) evs"
    using loop_promote [of c L evs] by simp
qed

theorem runAsCandidate_vote_round_witness:
  "state scenario_candidate = Candidate
   \<and> runAsCandidate Inmem scenario_candidate [] = Blocked (voteRound (runAsCandidate_entry scenario_candidate))
   \<and> runAsCandidate_loop Inmem (runAsCandidate_entry scenario_candidate) ([] @ [ElectionTimeoutC])
       = Blocked (voteRound (voteRound (runAsCandidate_entry scenario_candidate)))
   \<and> rvr_VoteGranted \<lparr>rvr_Term = 1, rvr_VoteGranted = True\<rparr>
   \<and> rvr_Term \<lparr>rvr_Term = 1, rvr_VoteGranted = True\<rparr>
       = currentTerm (srv (voteRound (runAsCandidate_entry scenario_candidate)))
   \<and> votesGranted (voteRound (runAsCandidate_entry scenario_candidate)) + 1
       = QuorumSize (srv (voteRound (runAsCandidate_entry scenario_candidate)))
   \<and> runAsCandidate_loop Inmem (runAsCandidate_entry scenario_candidate)
        ([] @ RespCh \<lparr>rvr_Term = 1, rvr_VoteGranted = True\<rparr> # [StopCh])
       = Returned ((voteRound (runAsCandidate_entry scenario_candidate))
                     \<lparr>srv := (srv (voteRound (runAsCandidate_entry scenario_candidate)))\<lparr>state := Leader\<rparr>,
                        votesGranted := votesGranted (voteRound (runAsCandidate_entry scenario_candidate)) + 1\<rparr>)
                  [StopCh]
   \<and> state (srv (runAsCandidate_entry lone_candidate)) = Candidate
   \<and> votesGranted (voteRound (runAsCandidate_entry lone_candidate))
       = QuorumSize (srv (runAsCandidate_entry lone_candidate))
   \<and> runAsCandidate_loop Inmem (runAsCandidate_entry lone_candidate) [StopCh]
       = Returned ((voteRound (runAsCandidate_entry lone_candidate))
                     \<lparr>srv := (srv (voteRound (runAsCandidate_entry lone_candidate)))\<lparr>state := Leader\<rparr>\<rparr>)
                  [StopCh]"
proof -
  let ?c0 = "runAsCandidate_entry scenario_candidate"
  let ?l0 = "runAsCandidate_entry lone_candidate"
  let ?r = "\<lparr>rvr_Term = 1, rvr_VoteGranted = True\<rparr>"
  have q: "QuorumSize scenario_candidate = 2" "QuorumSize (srv ?c0) = 2"
    by (simp_all add: QuorumSize_def runAsCandidate_entry_def scenario_candidate_def fresh_node_def)
  have h1: "state scenario_candidate = Candidate"
    by (simp add: scenario_candidate_def)
  have h2: "runAsCandidate_loop Inmem ?c0 [] = Blocked (voteRound ?c0)"
    using h1 q
    by (simp add: loop_Nil Let_def voteRound_fields(2) QuorumSize_voteRound runAsCandidate_entry_def)
  have h3: "rvr_VoteGranted ?r"
    by simp
  have h4: "rvr_Term ?r = currentTerm (srv (voteRound ?c0))"
    by (simp add: voteRound_fields(1) runAsCandidate_entry_def scenario_candidate_def fresh_node_def)
  have h5: "votesGranted (voteRound ?c0) + 1 = QuorumSize (srv (voteRound ?c0))"
    using q by (simp add: voteRound_fields(2) QuorumSize_voteRound)
  have h6: "state (srv ?l0) = Candidate"
    by (simp add: runAsCandidate_entry_def lone_candidate_def)
  have h7: "votesGranted (voteRound ?l0) = QuorumSize (srv ?l0)"
    by (simp add: voteRound_fields(2) QuorumSize_def runAsCandidate_entry_def lone_candidate_def)
  have d: "doVote ?l0"
    by (simp add: runAsCandidate_entry_def)
  note t = runAsCandidate_vote_round [where L = Inmem]
  have c2: "runAsCandidate Inmem scenario_candidate [] = Blocked (voteRound ?c0)"
    using t [where s = scenario_candidate, THEN conjunct2, THEN conjunct1, THEN mp, OF h1] q
    by (simp add: Let_def)
  have c3: "runAsCandidate_loop Inmem ?c0 ([] @ [ElectionTimeoutC]) = Blocked (voteRound (voteRound ?c0))"
    using t [where c = ?c0 and evs = "[]" and c' = "voteRound ?c0",
             THEN conjunct2, THEN conjunct2, THEN conjunct1, THEN mp, OF h2] q
    by (simp add: QuorumSize_voteRound)
  have c4: "runAsCandidate_loop Inmem ?c0 ([] @ RespCh ?r # [StopCh])
       = Returned ((voteRound ?c0)\<lparr>srv := (srv (voteRound ?c0))\<lparr>state := Leader\<rparr>,
                                    votesGranted := votesGranted (voteRound ?c0) + 1\<rparr>) [StopCh]"
    by (rule t [where c = ?c0 and evs = "[]" and c' = "voteRound ?c0" and r = ?r and later = "[StopCh]",
                THEN conjunct2, THEN conjunct2, THEN conjunct2, THEN conjunct1, THEN mp,
                OF conjI [OF h2 conjI [OF h3 conjI [OF h4 h5]]]])
  have c5: "runAsCandidate_loop Inmem ?l0 [StopCh]
       = Returned ((voteRound ?l0)\<lparr>srv := (srv (voteRound ?l0))\<lparr>state := Leader\<rparr>\<rparr>) [StopCh]"
    using t [where c = ?l0 and evs = "[StopCh]",
             THEN conjunct2, THEN conjunct2, THEN conjunct2, THEN conjunct2, THEN mp] h6 h7 d
    by simp
  show ?thesis
    by (intro conjI h1 c2 c3 h3 h4 h5 c4 h6 h7 c5)
qed

lemma processRequestVoteResponse_eq:
  "processRequestVoteResponse s resp =
     (rvr_VoteGranted resp \<and> rvr_Term resp = currentTerm s,
      if rvr_Term resp > currentTerm s then setState Follower (setTerm (rvr_Term resp) s) else s)"
  by (auto simp: processRequestVoteResponse_def)

text \<open>
  C8. A candidate loop waiting in \<^verbatim>\<open>select\<close> (any run that is blocked there) receives a
  vote response. The loop adds one to \<open>votesGranted\<close> exactly when \<open>voteGranted\<close> is true
  and the response's term is the node's current term, and otherwise leaves the count as
  it is; the first conjunct says so for the run continued with any later events, the
  second shows the count in the state the run ends in when no event follows. If the
  response's term is above the current term, the node adopts that term, becomes
  Follower and the loop returns at once, whether or not \<open>voteGranted\<close> is set (third
  conjunct).
\<close>

theorem vote_response_counted:
  assumes "runAsCandidate_loop L c evs = Blocked c'"
  shows "runAsCandidate_loop L c (evs @ RespCh resp # later) =
           runAsCandidate_loop L
             (c'\<lparr>srv := (if rvr_Term resp > currentTerm (srv c')
                          then setState Follower (setTerm (rvr_Term resp) (srv c'))
                          else srv c'),
                 votesGranted := (if rvr_VoteGranted resp \<and> rvr_Term resp = currentTerm (srv c')
                                  then votesGranted c' + 1 else votesGranted c')\<rparr>)
             later
         \<and> (\<not> rvr_Term resp > currentTerm (srv c') \<longrightarrow>
              runAsCandidate_loop L c (evs @ [RespCh resp]) =
                (if rvr_VoteGranted resp \<and> rvr_Term resp = currentTerm (srv c')
                 then (if votesGranted c' + 1 = QuorumSize (srv c')
                       then Returned (c'\<lparr>srv := (srv c')\<lparr>state := Leader\<rparr>,
                                         votesGranted := votesGranted c' + 1\<rparr>) []
                       else Blocked (c'\<lparr>votesGranted := votesGranted c' + 1\<rparr>))
                 else Blocked c'))
         \<and> (rvr_Term resp > currentTerm (srv c') \<longrightarrow>
              runAsCandidate_loop L c (evs @ RespCh resp # later) =
                Returned (c'\<lparr>srv := setState Follower (setTerm (rvr_Term resp) (srv c'))\<rparr>) later
              \<and> currentTerm (setState Follower (setTerm (rvr_Term resp) (srv c'))) = rvr_Term resp
              \<and> state (setState Follower (setTerm (rvr_Term resp) (srv c'))) = Follower)"
proof -
  let ?s2 = "if rvr_Term resp > currentTerm (srv c')
             then setState Follower (setTerm (rvr_Term resp) (srv c')) else srv c'"
  let ?n2 = "if rvr_VoteGranted resp \<and> rvr_Term resp = currentTerm (srv c')
             then votesGranted c' + 1 else votesGranted c'"
  have step: "runAsCandidate_loop L c (evs @ RespCh resp # rest) =
                runAsCandidate_loop L (c'\<lparr>srv := ?s2, votesGranted := ?n2\<rparr>) rest" for rest
  proof -
    note st = blocked [OF assms, of "RespCh resp # rest"]
    have w: "state (srv c') = Candidate" "\<not> doVote c'" "votesGranted c' \<noteq> QuorumSize (srv c')"
      using st by simp_all
    have "runAsCandidate_loop L c' (RespCh resp # rest) =
            runAsCandidate_loop L (c'\<lparr>srv := ?s2, votesGranted := ?n2\<rparr>) rest"
      by (simp add: loop_waiting [OF w] processRequestVoteResponse_eq)
    with st show ?thesis
      by simp
  qed
  note st = blocked [OF assms, of "[]"]
  have w: "state (srv c') = Candidate" "\<not> doVote c'" "votesGranted c' \<noteq> QuorumSize (srv c')"
    using st by simp_all
  have second: "runAsCandidate_loop L c (evs @ [RespCh resp]) =
                (if rvr_VoteGranted resp \<and> rvr_Term resp = currentTerm (srv c')
                 then (if votesGranted c' + 1 = QuorumSize (srv c')
                       then Returned (c'\<lparr>srv := (srv c')\<lparr>state := Leader\<rparr>,
                                         votesGranted := votesGranted c' + 1\<rparr>) []
                       else Blocked (c'\<lparr>votesGranted := votesGranted c' + 1\<rparr>))
                 else Blocked c')"
    if low: "\<not> rvr_Term resp > currentTerm (srv c')"
    using w low by (auto simp: step [of "[]"] loop_Nil Let_def)
  have third: "runAsCandidate_loop L c (evs @ RespCh resp # later) =
                Returned (c'\<lparr>srv := setState Follower (setTerm (rvr_Term resp) (srv c'))\<rparr>) later"
    if high: "rvr_Term resp > currentTerm (srv c')"
  proof -
    have eq: "c'\<lparr>srv := ?s2, votesGranted := ?n2\<rparr>
                = c'\<lparr>srv := setState Follower (setTerm (rvr_Term resp) (srv c'))\<rparr>"
      using high by auto
    have "runAsCandidate_loop L c (evs @ RespCh resp # later) =
            runAsCandidate_loop L (c'\<lparr>srv := setState Follower (setTerm (rvr_Term resp) (srv c'))\<rparr>) later"
      using step [of later] unfolding eq .
    also have "\<dots> = Returned (c'\<lparr>srv := setState Follower (setTerm (rvr_Term resp) (srv c'))\<rparr>) later"
      by (rule loop_exit) (simp add: setState_def)
    finally show ?thesis .
  qed
  have fields: "currentTerm (setState Follower (setTerm (rvr_Term resp) (srv c'))) = rvr_Term resp
              \<and> state (setState Follower (setTerm (rvr_Term resp) (srv c'))) = Follower"
    by (simp add: setState_def setTerm_def)
  show ?thesis
    using step [of later] second third fields by blast
qed

theorem vote_response_counted_witness:
  "runAsCandidate_loop Inmem (runAsCandidate_entry (scenario_candidate\<lparr>currentTerm := 3\<rparr>)) []
     = Blocked (voteRound (runAsCandidate_entry (scenario_candidate\<lparr>currentTerm := 3\<rparr>)))
   \<and> currentTerm (srv (voteRound (runAsCandidate_entry (scenario_candidate\<lparr>currentTerm := 3\<rparr>)))) = 4
   \<and> runAsCandidate_loop Inmem (runAsCandidate_entry (scenario_candidate\<lparr>currentTerm := 3\<rparr>))
        ([] @ [RespCh \<lparr>rvr_Term = 4, rvr_VoteGranted = False\<rparr>])
       = Blocked (voteRound (runAsCandidate_entry (scenario_candidate\<lparr>currentTerm := 3\<rparr>)))
   \<and> runAsCandidate_loop Inmem (runAsCandidate_entry (scenario_candidate\<lparr>currentTerm := 3\<rparr>))
        ([] @ [RespCh \<lparr>rvr_Term = 3, rvr_VoteGranted = True\<rparr>])
       = Blocked (voteRound (runAsCandidate_entry (scenario_candidate\<lparr>currentTerm := 3\<rparr>)))
   \<and> runAsCandidate_loop Inmem (runAsCandidate_entry (scenario_candidate\<lparr>currentTerm := 3\<rparr>))
        ([] @ [RespCh \<lparr>rvr_Term = 4, rvr_VoteGranted = True\<rparr>])
       = Returned ((voteRound (runAsCandidate_entry (scenario_candidate\<lparr>currentTerm := 3\<rparr>)))
                     \<lparr>srv := (srv (voteRound (runAsCandidate_entry (scenario_candidate\<lparr>currentTerm := 3\<rparr>))))
                               \<lparr>state := Leader\<rparr>,
                        votesGranted := 2\<rparr>) []
   \<and> runAsCandidate_loop Inmem (runAsCandidate_entry (scenario_candidate\<lparr>currentTerm := 3\<rparr>))
        ([] @ RespCh \<lparr>rvr_Term = 5, rvr_VoteGranted = True\<rparr> # [StopCh])
       = Returned ((voteRound (runAsCandidate_entry (scenario_candidate\<lparr>currentTerm := 3\<rparr>)))
                     \<lparr>srv := setState Follower
                               (setTerm 5 (srv (voteRound (runAsCandidate_entry
                                                            (scenario_candidate\<lparr>currentTerm := 3\<rparr>)))))\<rparr>)
                  [StopCh]
   \<and> currentTerm (setState Follower
                    (setTerm 5 (srv (voteRound (runAsCandidate_entry
                                                 (scenario_candidate\<lparr>currentTerm := 3\<rparr>)))))) = 5
   \<and> state (setState Follower
              (setTerm 5 (srv (voteRound (runAsCandidate_entry
                                           (scenario_candidate\<lparr>currentTerm := 3\<rparr>)))))) = Follower"
proof -
  let ?c0 = "runAsCandidate_entry (scenario_candidate\<lparr>currentTerm := 3\<rparr>)"
  let ?c1 = "voteRound ?c0"
  have q: "QuorumSize (srv ?c0) = 2"
    by (simp add: QuorumSize_def runAsCandidate_entry_def scenario_candidate_def fresh_node_def)
  have st: "state (srv ?c0) = Candidate" and dv: "doVote ?c0"
    by (simp_all add: runAsCandidate_entry_def scenario_candidate_def)
  have h: "runAsCandidate_loop Inmem ?c0 [] = Blocked ?c1"
    using q st dv by (simp add: loop_Nil Let_def voteRound_fields(2) QuorumSize_voteRound)
  have tm: "currentTerm (srv ?c1) = 4"
    by (simp add: voteRound_fields(1) runAsCandidate_entry_def scenario_candidate_def fresh_node_def)
  have vg: "votesGranted ?c1 = 1"
    by (simp add: voteRound_fields(2))
  have q1: "QuorumSize (srv ?c1) = 2"
    using q by (simp add: QuorumSize_voteRound)
  note t = vote_response_counted [OF h]
  have a: "runAsCandidate_loop Inmem ?c0 ([] @ [RespCh \<lparr>rvr_Term = 4, rvr_VoteGranted = False\<rparr>])
             = Blocked ?c1"
    using t [where resp = "\<lparr>rvr_Term = 4, rvr_VoteGranted = False\<rparr>", THEN conjunct2, THEN conjunct1] tm
    by simp
  have b: "runAsCandidate_loop Inmem ?c0 ([] @ [RespCh \<lparr>rvr_Term = 3, rvr_VoteGranted = True\<rparr>])
             = Blocked ?c1"
    using t [where resp = "\<lparr>rvr_Term = 3, rvr_VoteGranted = True\<rparr>", THEN conjunct2, THEN conjunct1] tm
    by simp
  have c: "runAsCandidate_loop Inmem ?c0 ([] @ [RespCh \<lparr>rvr_Term = 4, rvr_VoteGranted = True\<rparr>])
             = Returned (?c1\<lparr>srv := (srv ?c1)\<lparr>state := Leader\<rparr>, votesGranted := 2\<rparr>) []"
    using t [where resp = "\<lparr>rvr_Term = 4, rvr_VoteGranted = True\<rparr>", THEN conjunct2, THEN conjunct1] tm vg q1
    by simp
  have hi: "currentTerm (srv ?c1) < rvr_Term \<lparr>rvr_Term = 5, rvr_VoteGranted = True\<rparr>"
    using tm by simp
  note d = t [where resp = "\<lparr>rvr_Term = 5, rvr_VoteGranted = True\<rparr>" and later = "[StopCh]",
              THEN conjunct2, THEN conjunct2, THEN mp, OF hi]
  have d1: "runAsCandidate_loop Inmem ?c0 ([] @ RespCh \<lparr>rvr_Term = 5, rvr_VoteGranted = True\<rparr> # [StopCh])
              = Returned (?c1\<lparr>srv := setState Follower (setTerm 5 (srv ?c1))\<rparr>) [StopCh]"
    using d by simp
  have d2: "currentTerm (setState Follower (setTerm 5 (srv ?c1))) = 5"
    and d3: "state (setState Follower (setTerm 5 (srv ?c1))) = Follower"
    using d by simp_all
  show ?thesis
    by (intro conjI h tm a b c d1 d2 d3)
qed

lemma sent_voteRound:
  assumes "m \<in> set (sent (voteRound c))"
  shows "m \<in> set (sent c) \<or> (rv_LastLogIndex (snd m) = 1 \<and> rv_LastLogTerm (snd m) = 0)"
  using assms by (auto simp: voteRound_fields(5) newRequestVoteRequest_def)

text \<open>
  Whatever the events are and however the run ends, the loop adds to the requests it
  has sent only requests that carry index 1 and term 0.
\<close>

lemma sent_loop:
  assumes "\<And>m. m \<in> set (sent c) \<Longrightarrow> rv_LastLogIndex (snd m) = 1 \<and> rv_LastLogTerm (snd m) = 0"
      and "m \<in> set (sent (finalLoop (runAsCandidate_loop L c evs)))"
  shows "rv_LastLogIndex (snd m) = 1 \<and> rv_LastLogTerm (snd m) = 0"
  using assms
proof (induction evs arbitrary: c)
  case Nil
  let ?c1 = "if doVote c then voteRound c else c"
  have c1: "\<And>m. m \<in> set (sent ?c1) \<Longrightarrow> rv_LastLogIndex (snd m) = 1 \<and> rv_LastLogTerm (snd m) = 0"
    using Nil.prems(1) sent_voteRound [of _ c] by (cases "doVote c") auto
  have "m \<in> set (sent c) \<or> m \<in> set (sent ?c1)"
    using Nil.prems(2) by (simp add: loop_Nil Let_def split: if_splits)
  then show ?case
    using Nil.prems(1) c1 by blast
next
  case (Cons e evs)
  let ?c1 = "if doVote c then voteRound c else c"
  have c1: "\<And>m. m \<in> set (sent ?c1) \<Longrightarrow> rv_LastLogIndex (snd m) = 1 \<and> rv_LastLogTerm (snd m) = 0"
    using Cons.prems(1) sent_voteRound [of _ c] by (cases "doVote c") auto
  show ?case
  proof (cases "state (srv c) = Candidate")
    case False
    then show ?thesis
      using Cons.prems by (simp add: loop_exit)
  next
    case cand: True
    show ?thesis
    proof (cases "votesGranted ?c1 = QuorumSize (srv c)")
      case True
      then show ?thesis
        using Cons.prems(2) c1 loop_promote [OF cand, of L "e # evs"] by simp
    next
      case nq: False
      note w = top_waits [OF cand nq]
      have run: "runAsCandidate_loop L c (e # evs) = runAsCandidate_loop L ?c1 (e # evs)"
        by (rule loop_top [OF cand nq])
      show ?thesis
      proof (cases e)
        case StopCh
        then show ?thesis
          using Cons.prems(2) c1 run by (simp add: loop_waiting [OF w])
      next
        case (RespCh resp)
        obtain success s' where r: "processRequestVoteResponse (srv ?c1) resp = (success, s')"
          by (cases "processRequestVoteResponse (srv ?c1) resp")
        let ?c2 = "?c1\<lparr>srv := s', votesGranted := (if success then votesGranted ?c1 + 1 else votesGranted ?c1)\<rparr>"
        have "m \<in> set (sent (finalLoop (runAsCandidate_loop L ?c2 evs)))"
          using Cons.prems(2) run RespCh r by (simp add: loop_waiting [OF w])
        moreover have "\<And>m. m \<in> set (sent ?c2) \<Longrightarrow> rv_LastLogIndex (snd m) = 1 \<and> rv_LastLogTerm (snd m) = 0"
          using c1 by simp
        ultimately show ?thesis
          by (rule Cons.IH [rotated])
      next
        case (RpcCh rpc)
        show ?thesis
        proof (cases "processRPC L (srv ?c1) rpc")
          case (Inl f)
          then show ?thesis
            using Cons.prems(2) c1 run RpcCh by (simp add: loop_waiting [OF w])
        next
          case (Inr p)
          obtain s' reply where p: "p = (s', reply)"
            by (cases p)
          let ?c2 = "?c1\<lparr>srv := s', replies := replies ?c1 @ [reply]\<rparr>"
          have "m \<in> set (sent (finalLoop (runAsCandidate_loop L ?c2 evs)))"
            using Cons.prems(2) run RpcCh Inr p by (simp add: loop_waiting [OF w])
          moreover have "\<And>m. m \<in> set (sent ?c2) \<Longrightarrow> rv_LastLogIndex (snd m) = 1 \<and> rv_LastLogTerm (snd m) = 0"
            using c1 by simp
          ultimately show ?thesis
            by (rule Cons.IH [rotated])
        qed
      next
        case ElectionTimeoutC
        let ?c2 = "?c1\<lparr>doVote := True\<rparr>"
        have "m \<in> set (sent (finalLoop (runAsCandidate_loop L ?c2 evs)))"
          using Cons.prems(2) run ElectionTimeoutC by (simp add: loop_waiting [OF w])
        moreover have "\<And>m. m \<in> set (sent ?c2) \<Longrightarrow> rv_LastLogIndex (snd m) = 1 \<and> rv_LastLogTerm (snd m) = 0"
          using c1 by simp
        ultimately show ?thesis
          by (rule Cons.IH [rotated])
      qed
    qed
  qed
qed

text \<open>
  C10. Every vote request the candidate loop hands to \<^verbatim>\<open>sendVoteRequest\<close>, in whatever
  state the candidate and its log are and whatever events the loop receives, carries
  \<open>lastLogIndex = 1\<close> and \<open>lastLogTerm = 0\<close>. So a node \<open>r\<close> that handles the request
  grants its vote exactly when the request passes the term and vote checks and
  \<open>r\<close>'s own cached last-log index is at most 1 and its last-log term is 0: the
  up-to-date check compares with (1, 0), not with the candidate's log.
\<close>

theorem vote_requests_carry_constants:
  assumes "(peer, req) \<in> set (sent (finalLoop (runAsCandidate L s evs)))"
  shows "rv_LastLogIndex req = 1 \<and> rv_LastLogTerm req = 0
         \<and> rvr_VoteGranted (fst (snd (processRequestVote r req))) =
             (\<not> rv_Term req < currentTerm r
              \<and> (currentTerm r < rv_Term req \<or> votedFor r = [] \<or> votedFor r = rv_CandidateName req)
              \<and> \<not> (lastLogIndex r > 1 \<or> lastLogTerm r > 0))"
proof -
  have "m \<in> set (sent (runAsCandidate_entry s)) \<Longrightarrow>
          rv_LastLogIndex (snd m) = 1 \<and> rv_LastLogTerm (snd m) = 0" for m
    by (simp add: runAsCandidate_entry_def)
  moreover have "(peer, req) \<in> set (sent (finalLoop (runAsCandidate_loop L (runAsCandidate_entry s) evs)))"
    using assms by (simp add: runAsCandidate_def)
  ultimately have "rv_LastLogIndex (snd (peer, req)) = 1 \<and> rv_LastLogTerm (snd (peer, req)) = 0"
    by (rule sent_loop)
  then show ?thesis
    by (auto simp: processRequestVote_cases)
qed

theorem vote_requests_carry_constants_witness:
  "(''n2'', newRequestVoteRequest 1 ''n1'' 1 0)
     \<in> set (sent (finalLoop (runAsCandidate Inmem scenario_candidate [])))
   \<and> rv_LastLogIndex (newRequestVoteRequest 1 ''n1'' 1 0) = 1
   \<and> rv_LastLogTerm (newRequestVoteRequest 1 ''n1'' 1 0) = 0
   \<and> rvr_VoteGranted (fst (snd (processRequestVote fresh_node (newRequestVoteRequest 1 ''n1'' 1 0))))
   \<and> \<not> rvr_VoteGranted
         (fst (snd (processRequestVote scenario_follower (newRequestVoteRequest 1 ''n1'' 1 0))))"
proof -
  let ?req = "newRequestVoteRequest 1 ''n1'' 1 0"
  have q: "QuorumSize (srv (runAsCandidate_entry scenario_candidate)) = 2"
    by (simp add: QuorumSize_def runAsCandidate_entry_def scenario_candidate_def fresh_node_def)
  have st: "state (srv (runAsCandidate_entry scenario_candidate)) = Candidate"
    and dv: "doVote (runAsCandidate_entry scenario_candidate)"
    by (simp_all add: runAsCandidate_entry_def scenario_candidate_def)
  have run: "runAsCandidate Inmem scenario_candidate []
               = Blocked (voteRound (runAsCandidate_entry scenario_candidate))"
    using q st dv
    by (simp add: runAsCandidate_def loop_Nil Let_def voteRound_fields(2) QuorumSize_voteRound)
  have h: "(''n2'', ?req) \<in> set (sent (finalLoop (runAsCandidate Inmem scenario_candidate [])))"
    by (subst run)
       (simp add: voteRound_fields(5) runAsCandidate_entry_def scenario_candidate_def fresh_node_def)
  note t = vote_requests_carry_constants [OF h]
  have a: "rv_LastLogIndex ?req = 1" and b: "rv_LastLogTerm ?req = 0"
    using t [of fresh_node] by simp_all
  have c: "rvr_VoteGranted (fst (snd (processRequestVote fresh_node ?req)))"
    using t [of fresh_node] by (simp add: fresh_node_def newRequestVoteRequest_def)
  have d: "\<not> rvr_VoteGranted (fst (snd (processRequestVote scenario_follower ?req)))"
    using t [of scenario_follower]
    by (simp add: scenario_follower_def fresh_node_def newRequestVoteRequest_def)
  show ?thesis
    by (intro conjI h a b c d)
qed

end
